theory Spec2Isabelle
  imports Complex_Main "HOL-Library.AList" "HOL-Library.Sublist" "HOL-Library.Log_Nat"
    "HOL-Library.List_Lexorder"
begin

section \<open>The shared result contract and JavaScript helpers\<close>

text \<open>
  The six encoders of \<^verbatim>\<open>services/algorithms.ts\<close> return one \<^verbatim>\<open>CompressionResult\<close>
  (\<^verbatim>\<open>types.ts\<close>). The trace records, the dictionary and the tree differ per encoder,
  so they are type parameters. Sizes are JavaScript numbers holding integers; the ratio
  is a quotient and is kept exact (a rational), so rounding of IEEE doubles is not part
  of the model. Text is a list of 8-bit characters: the encoders that iterate by code
  point and those that index by UTF-16 code unit agree on such inputs. The LZW encoder,
  whose behaviour depends on code units above 255, is modelled over code units.
\<close>

record ('s, 'd, 't) CompressionResult =
  encoded :: string
  originalSize :: int
  compressedSize :: int
  ratio :: rat
  steps :: "'s list"
  dictionary :: "'d option"
  tree :: "'t option"

text \<open>
  The exception raised by reading a property of \<^verbatim>\<open>undefined\<close> and by calling a value
  that is not a function. Limits of an engine (the maximal length of a string, the
  heap) are not modelled: texts and lists are unbounded.
\<close>

datatype js_error = TypeError

definition emptyResult :: "('s, 'd, 't) CompressionResult" where
  "emptyResult = \<lparr> encoded = [], originalSize = 0, compressedSize = 0, ratio = 0,
                   steps = [], dictionary = None, tree = None \<rparr>"

text \<open>The zero-valued result, as a predicate on the fields that every encoder sets.\<close>

definition zeroValued :: "('s, 'd, 't) CompressionResult \<Rightarrow> bool" where
  "zeroValued r =
     (encoded r = [] \<and> originalSize r = 0 \<and> compressedSize r = 0 \<and> ratio r = 0 \<and> steps r = [])"

text \<open>\<^verbatim>\<open>(1 - compressedSize / originalSize) * 100\<close>\<close>

definition ratioOf :: "int \<Rightarrow> int \<Rightarrow> rat" where
  "ratioOf cs os = (1 - of_int cs / of_int os) * 100"

text \<open>\<^verbatim>\<open>Number.prototype.toString(radix)\<close> on a non-negative integer, for a radix up to 16.\<close>

definition digitChar :: "nat \<Rightarrow> char" where
  "digitChar d = ''0123456789abcdef'' ! d"

function toStringRadix :: "nat \<Rightarrow> nat \<Rightarrow> string" where
  "toStringRadix b n =
     (if b < 2 \<or> n < b then [digitChar n]
      else toStringRadix b (n div b) @ [digitChar (n mod b)])"
  by pat_completeness auto
termination
  by (relation "measure (\<lambda>(b, n). n)") auto

declare toStringRadix.simps [simp del]

text \<open>\<^verbatim>\<open>String.prototype.padStart(width, '0')\<close>\<close>

definition padStart :: "nat \<Rightarrow> string \<Rightarrow> string" where
  "padStart w s = replicate (w - length s) CHR ''0'' @ s"

section \<open>Run-length encoding\<close>

record rle_step =
  rle_char :: char
  rle_count :: nat
  rle_code :: string

text \<open>
  The \<^verbatim>\<open>for\<close> loop of \<^verbatim>\<open>compressRLE\<close>: the argument list is the input from index
  \<open>i\<close> on, so \<open>i < input.length - 1\<close> is the case of two or more remaining characters.
  The state is \<open>count\<close>, \<open>encoded\<close> and \<open>steps\<close>.
\<close>

fun rleLoop :: "string \<Rightarrow> nat \<Rightarrow> string \<Rightarrow> rle_step list \<Rightarrow> string \<times> rle_step list" where
  "rleLoop [] count enc sts = (enc, sts)"
| "rleLoop [c] count enc sts =
     (enc @ toStringRadix 10 count @ [c],
      sts @ [\<lparr> rle_char = c, rle_count = count, rle_code = toStringRadix 10 count @ [c] \<rparr>])"
| "rleLoop (c # d # cs) count enc sts =
     (if c = d then rleLoop (d # cs) (count + 1) enc sts
      else rleLoop (d # cs) 1 (enc @ toStringRadix 10 count @ [c])
             (sts @ [\<lparr> rle_char = c, rle_count = count, rle_code = toStringRadix 10 count @ [c] \<rparr>]))"

definition compressRLE :: "string \<Rightarrow> (rle_step, unit, unit) CompressionResult" where
  "compressRLE input =
     (if input = [] then emptyResult
      else let (enc, sts) = rleLoop input 1 [] [];
               os = int (length input) * 8;
               cs = int (length sts) * 16
           in \<lparr> encoded = enc, originalSize = os, compressedSize = cs,
                ratio = ratioOf cs os, steps = sts, dictionary = None, tree = None \<rparr>)"

section \<open>Golomb coding\<close>

text \<open>
  \<^verbatim>\<open>inputStr.split(/[\s,]+/)\<close>: the separators are the comma and the characters of the
  class \<^verbatim>\<open>\s\<close>, of which tab, line feed, vertical tab, form feed, carriage return,
  space and the no-break space lie in the 8-bit range. A maximal run of separators
  separates two tokens; a run at the start or at the end of the input leaves an empty
  token there, and the empty input is one empty token.
\<close>

definition isWhite :: "char \<Rightarrow> bool" where
  "isWhite c = ((of_char c :: nat) \<in> {9, 10, 11, 12, 13, 32, 160})"

definition isSep :: "char \<Rightarrow> bool" where
  "isSep c = (isWhite c \<or> c = CHR '','')"

function jsSplit :: "string \<Rightarrow> string list" where
  "jsSplit [] = [[]]"
| "jsSplit (c # cs) =
     (if isSep c then [] # jsSplit (dropWhile isSep cs)
      else (case jsSplit cs of [] \<Rightarrow> [[c]] | t # ts \<Rightarrow> (c # t) # ts))"
  by pat_completeness auto
termination
  by (relation "measure length") (auto simp: length_dropWhile_le less_Suc_eq_le)

text \<open>
  \<^verbatim>\<open>parseInt(token)\<close> with no radix: leading white space is skipped, one sign is read,
  a prefix \<^verbatim>\<open>0x\<close> or \<^verbatim>\<open>0X\<close> selects radix 16, and the longest run of digits of the
  radix is the number; with no digit the result is \<^verbatim>\<open>NaN\<close>, here \<open>None\<close>. Whatever
  follows the digits is ignored. The result is an unbounded integer: the rounding of
  values beyond \<open>2^53\<close> to a double is not modelled, and \<^verbatim>\<open>-0\<close> is \<open>0\<close>.
\<close>

definition digitValue :: "char \<Rightarrow> nat" where
  "digitValue c =
     (let n = (of_char c :: nat)
      in if 48 \<le> n \<and> n \<le> 57 then n - 48
         else if 97 \<le> n \<and> n \<le> 122 then n - 87
         else if 65 \<le> n \<and> n \<le> 90 then n - 55
         else 36)"

definition isRadixDigit :: "nat \<Rightarrow> char \<Rightarrow> bool" where
  "isRadixDigit R c = (digitValue c < R)"

definition parseInt :: "string \<Rightarrow> int option" where
  "parseInt s =
     (let s1 = dropWhile isWhite s;
          sign = (if s1 \<noteq> [] \<and> hd s1 = CHR ''-'' then - 1 else (1::int));
          s2 = (if s1 \<noteq> [] \<and> (hd s1 = CHR ''+'' \<or> hd s1 = CHR ''-'') then tl s1 else s1);
          hex = (take 2 s2 = ''0x'' \<or> take 2 s2 = ''0X'');
          R = (if hex then 16 else 10);
          s3 = (if hex then drop 2 s2 else s2);
          Z = takeWhile (isRadixDigit R) s3
      in if Z = [] then None
         else Some (sign * int (foldl (\<lambda>a c. a * R + digitValue c) 0 Z)))"

text \<open>\<^verbatim>\<open>.map(n => parseInt(n)).filter(n => !isNaN(n) && n >= 0)\<close>\<close>

definition keepNumber :: "int option \<Rightarrow> bool" where
  "keepNumber v = (case v of None \<Rightarrow> False | Some n \<Rightarrow> 0 \<le> n)"

definition golombNumbers :: "string \<Rightarrow> nat list" where
  "golombNumbers inputStr = map (\<lambda>v. nat (the v)) (filter keepNumber (map parseInt (jsSplit inputStr)))"

text \<open>
  \<^verbatim>\<open>M = Math.max(1, Math.floor(mParam))\<close>, \<^verbatim>\<open>b = Math.ceil(Math.log2(M))\<close> and
  \<^verbatim>\<open>cutoff = Math.pow(2, b) - M\<close>. The parameter is a finite number (a rational);
  \<^verbatim>\<open>NaN\<close> and the infinities are outside the model. The logarithm is computed by
  halving; \<open>ceilLog2_log\<close> below shows that this is the ceiling of the real logarithm.
\<close>

definition golombM :: "rat \<Rightarrow> nat" where
  "golombM mParam = nat (max 1 \<lfloor>mParam\<rfloor>)"

fun ceilLog2 :: "nat \<Rightarrow> nat" where
  "ceilLog2 n = (if n \<le> 1 then 0 else Suc (ceilLog2 ((n - 1) div 2 + 1)))"

declare ceilLog2.simps [simp del]

definition golombB :: "nat \<Rightarrow> nat" where
  "golombB M = ceilLog2 M"

definition golombCutoff :: "nat \<Rightarrow> int" where
  "golombCutoff M = 2 ^ golombB M - int M"

record golomb_step =
  g_number :: nat
  g_q :: nat
  g_r :: nat
  g_unary :: string
  g_binary :: string
  g_code :: string

text \<open>The body of the loop over \<^verbatim>\<open>numbers\<close>, for one number.\<close>

definition golombStep :: "nat \<Rightarrow> nat \<Rightarrow> golomb_step" where
  "golombStep M n =
     (let b = golombB M;
          cutoff = golombCutoff M;
          q = n div M;
          r = n mod M;
          unary = replicate q CHR ''1'' @ ''0'';
          binary = (if M = 1 then []
                    else if int r < cutoff then padStart (b - 1) (toStringRadix 2 r)
                    else padStart b (toStringRadix 2 (nat (int r + cutoff))))
      in \<lparr> g_number = n, g_q = q, g_r = r, g_unary = unary, g_binary = binary,
           g_code = unary @ binary \<rparr>)"

fun golombLoop :: "nat \<Rightarrow> nat list \<Rightarrow> string \<Rightarrow> golomb_step list \<Rightarrow> string \<times> golomb_step list" where
  "golombLoop M [] enc sts = (enc, sts)"
| "golombLoop M (n # ns) enc sts =
     golombLoop M ns (enc @ g_code (golombStep M n)) (sts @ [golombStep M n])"

definition compressGolomb :: "string \<Rightarrow> rat \<Rightarrow> (golomb_step, unit, unit) CompressionResult" where
  "compressGolomb inputStr mParam =
     (let numbers = golombNumbers inputStr
      in if length numbers = 0 then emptyResult
         else let M = golombM mParam;
                  (enc, sts) = golombLoop M numbers [] [];
                  os = int (length numbers) * 32;
                  cs = int (length enc)
              in \<lparr> encoded = enc, originalSize = os, compressedSize = cs,
                   ratio = ratioOf cs os, steps = sts, dictionary = None, tree = None \<rparr>)"

section \<open>Plain objects used as dictionaries\<close>

text \<open>
  A \<^verbatim>\<open>Record<string, T>\<close> is a plain object. Its own properties are kept in creation
  order; \<^verbatim>\<open>obj[k] = v\<close> overwrites the value of an existing key in place and appends
  a new key (\<^const>\<open>AList.update\<close>), and \<^verbatim>\<open>obj[k]\<close> is \<^const>\<open>map_of\<close>, with
  \<open>None\<close> for \<^verbatim>\<open>undefined\<close>. \<^verbatim>\<open>Object.keys\<close> and \<^verbatim>\<open>Object.entries\<close> list the keys
  that are array indices (canonical decimal numerals below \<open>2^32 - 1\<close>) first, in
  ascending numeric order, and then the other keys in creation order.
\<close>

type_synonym 'v jsObject = "(string \<times> 'v) list"

definition decValue :: "string \<Rightarrow> nat" where
  "decValue k = foldl (\<lambda>a c. a * 10 + digitValue c) 0 k"

definition isArrayIndex :: "string \<Rightarrow> bool" where
  "isArrayIndex k =
     (k \<noteq> [] \<and> list_all (isRadixDigit 10) k \<and> (hd k \<noteq> CHR ''0'' \<or> length k = 1) \<and>
      decValue k < 4294967295)"

definition objectEntries :: "'v jsObject \<Rightarrow> (string \<times> 'v) list" where
  "objectEntries obj =
     sort_key (\<lambda>e. decValue (fst e)) (filter (\<lambda>e. isArrayIndex (fst e)) obj) @
     filter (\<lambda>e. \<not> isArrayIndex (fst e)) obj"

definition objectKeys :: "'v jsObject \<Rightarrow> string list" where
  "objectKeys obj = map fst (objectEntries obj)"

text \<open>
  \<^verbatim>\<open>for (const char of input) freqs[char] = (freqs[char] || 0) + 1\<close>, shared by the
  Huffman, arithmetic and Tunstall encoders. A symbol is a string of one character.
\<close>

fun countFreqs :: "string \<Rightarrow> nat jsObject \<Rightarrow> nat jsObject" where
  "countFreqs [] freqs = freqs"
| "countFreqs (c # cs) freqs =
     countFreqs cs (AList.update [c] ((case map_of freqs [c] of None \<Rightarrow> 0 | Some n \<Rightarrow> n) + 1) freqs)"

section \<open>Huffman coding\<close>

text \<open>
  The interface \<^verbatim>\<open>HuffmanNode\<close>: \<^verbatim>\<open>char\<close> is a symbol or \<^verbatim>\<open>null\<close>, the children are
  optional.
\<close>

datatype HuffmanNode =
  Node (char: "string option") (freq: nat) (left: "HuffmanNode option")
       (right: "HuffmanNode option") (id: string)

record huffman_step =
  h_char :: string
  h_code :: string
  h_freq :: "nat option"

text \<open>
  The leaves: \<^verbatim>\<open>Object.entries(freqs).map(([char, freq], idx) => ...)\<close> with the
  identifier \<^verbatim>\<open>leaf-${char}-${idx}\<close>.
\<close>

definition leafNodes :: "nat jsObject \<Rightarrow> HuffmanNode list" where
  "leafNodes freqs =
     map (\<lambda>((ch, f), idx). Node (Some ch) f None None (''leaf-'' @ ch @ ''-'' @ toStringRadix 10 idx))
       (zip (objectEntries freqs) [0 ..< length (objectEntries freqs)])"

text \<open>
  The merge loop: the in-place sort is stable and ascending in \<^verbatim>\<open>freq\<close>, the two
  \<^verbatim>\<open>shift\<close> calls take the first two nodes, and the new internal node is pushed at the
  end.
\<close>

function huffmanLoop :: "HuffmanNode list \<Rightarrow> nat \<Rightarrow> HuffmanNode list" where
  "huffmanLoop nodes internalIdCounter =
     (if length nodes > 1 then
        (case sort_key freq nodes of
           l # r # rest \<Rightarrow>
             huffmanLoop
               (rest @ [Node None (freq l + freq r) (Some l) (Some r)
                          (''internal-'' @ toStringRadix 10 internalIdCounter)])
               (internalIdCounter + 1)
         | _ \<Rightarrow> nodes)
      else nodes)"
  by pat_completeness auto
termination
proof (relation "measure (\<lambda>(nodes, c). length nodes)", goal_cases)
  case 1
  show ?case by simp
next
  case (2 nodes c l rs r rest)
  have "length (sort_key freq nodes) = length nodes" by simp
  with 2 show ?case by simp
qed

declare huffmanLoop.simps [simp del]

text \<open>The recursive walk \<^verbatim>\<open>generateCodes\<close>; the table \<^verbatim>\<open>codes\<close> is threaded through.\<close>

fun generateCodes :: "HuffmanNode option \<Rightarrow> string \<Rightarrow> string jsObject \<Rightarrow> string jsObject" where
  "generateCodes None code codes = codes"
| "generateCodes (Some (Node ch f l r i)) code codes =
     (case ch of
        Some c \<Rightarrow> AList.update c code codes
      | None \<Rightarrow> generateCodes r (code @ ''1'') (generateCodes l (code @ ''0'') codes))"

text \<open>\<^verbatim>\<open>encoded += codes[char]\<close>: a missing entry would append the text \<^verbatim>\<open>undefined\<close>.\<close>

definition lookupText :: "string jsObject \<Rightarrow> string \<Rightarrow> string" where
  "lookupText obj k = (case map_of obj k of None \<Rightarrow> ''undefined'' | Some v \<Rightarrow> v)"

definition huffmanCodes :: "HuffmanNode list \<Rightarrow> string jsObject \<times> HuffmanNode option" where
  "huffmanCodes nodes =
     (if length nodes = 1 then
        (case nodes of
           n # _ \<Rightarrow> (case char n of Some c \<Rightarrow> ([(c, ''0'')], Some n)
                    | None \<Rightarrow> ([(''null'', ''0'')], Some n))
         | [] \<Rightarrow> ([], None))
      else
        (let root = (case huffmanLoop nodes 0 of [] \<Rightarrow> None | n # _ \<Rightarrow> Some n)
         in (generateCodes root [] [], root)))"

definition compressHuffman ::
  "string \<Rightarrow> (huffman_step, string jsObject, HuffmanNode) CompressionResult" where
  "compressHuffman input =
     (if input = [] then emptyResult
      else let freqs = countFreqs input [];
               nodes = leafNodes freqs;
               (codes, root) = huffmanCodes nodes;
               enc = concat (map (\<lambda>c. lookupText codes [c]) input);
               os = int (length input) * 8;
               cs = int (length enc)
           in \<lparr> encoded = enc, originalSize = os, compressedSize = cs,
                ratio = ratioOf cs os,
                steps = map (\<lambda>(ch, code). \<lparr> h_char = ch, h_code = code, h_freq = map_of freqs ch \<rparr>)
                          (objectEntries codes),
                dictionary = Some codes, tree = root \<rparr>)"

text \<open>
  A code table is prefix-free when no code is a prefix of the code of another symbol.
  \<open>leafCodes\<close> is the set of symbol and code pairs that the walk assigns below a node.
\<close>

definition prefixFree :: "string jsObject \<Rightarrow> bool" where
  "prefixFree codes =
     (\<forall>(k1, c1)\<in>set codes. \<forall>(k2, c2)\<in>set codes. k1 \<noteq> k2 \<longrightarrow> \<not> prefix c1 c2)"

fun leafCodes :: "HuffmanNode option \<Rightarrow> string \<Rightarrow> (string \<times> string) set" where
  "leafCodes None code = {}"
| "leafCodes (Some (Node ch f l r i)) code =
     (case ch of
        Some c \<Rightarrow> {(c, code)}
      | None \<Rightarrow> leafCodes l (code @ ''0'') \<union> leafCodes r (code @ ''1''))"

text \<open>The symbols at the leaves below a node.\<close>

fun symbolsOf :: "HuffmanNode option \<Rightarrow> string set" where
  "symbolsOf None = {}"
| "symbolsOf (Some (Node ch f l r i)) =
     (case ch of Some c \<Rightarrow> {c} | None \<Rightarrow> symbolsOf l \<union> symbolsOf r)"

section \<open>LZW\<close>

text \<open>
  The input of \<^verbatim>\<open>compressLZW\<close> is indexed by UTF-16 code unit, and what the encoder
  does depends on whether a unit is below 256, so its text is a list of code units.
  The dictionary is a plain object that is only read and written by key, never
  enumerated: a partial map. Two properties of plain objects are part of the model.
  The assignment \<^verbatim>\<open>dictionary["__proto__"] = n\<close> reaches the inherited setter, which
  ignores a number, so no own property appears. The call
  \<^verbatim>\<open>dictionary.hasOwnProperty(wc)\<close> finds the own property once the key
  \<^verbatim>\<open>hasOwnProperty\<close> itself has been inserted, and calling a number raises
  \<^verbatim>\<open>TypeError\<close>.
\<close>

type_synonym ustring = "nat list"

definition ustr :: "string \<Rightarrow> ustring" where
  "ustr s = map of_char s"

type_synonym lzwDict = "ustring \<rightharpoonup> nat"

text \<open>\<^verbatim>\<open>for (let i = 0; i < 256; i++) dictionary[String.fromCharCode(i)] = i\<close>\<close>

definition lzwSeed :: lzwDict where
  "lzwSeed = (\<lambda>k. case k of [c] \<Rightarrow> (if c < 256 then Some c else None) | _ \<Rightarrow> None)"

definition hasOwnProperty :: "lzwDict \<Rightarrow> ustring \<Rightarrow> js_error + bool" where
  "hasOwnProperty d k =
     (if d (ustr ''hasOwnProperty'') \<noteq> None then Inl TypeError else Inr (d k \<noteq> None))"

definition dictSet :: "lzwDict \<Rightarrow> ustring \<Rightarrow> nat \<Rightarrow> lzwDict" where
  "dictSet d k v = (if k = ustr ''__proto__'' then d else d(k \<mapsto> v))"

text \<open>
  A trace record. \<^verbatim>\<open>output\<close> is \<^verbatim>\<open>dictionary[w]\<close>, \<open>None\<close> when it is \<^verbatim>\<open>undefined\<close>;
  \<^verbatim>\<open>newCode\<close> is a number, or \<open>None\<close> for the text \<^verbatim>\<open>-\<close> of the final record.
\<close>

record lzw_step =
  l_step :: nat
  l_w :: ustring
  l_k :: ustring
  l_output :: "nat option"
  l_addedToDict :: ustring
  l_newCode :: "nat option"

record lzw_state =
  s_dictionary :: lzwDict
  s_w :: ustring
  s_result :: "nat option list"
  s_steps :: "lzw_step list"
  s_dictSize :: nat

text \<open>The \<^verbatim>\<open>for\<close> loop over the input; the argument list is the input from index \<open>i\<close> on.\<close>

fun lzwLoop :: "ustring \<Rightarrow> lzw_state \<Rightarrow> js_error + lzw_state" where
  "lzwLoop [] st = Inr st"
| "lzwLoop (c # cs) st =
     (let wc = s_w st @ [c]
      in case hasOwnProperty (s_dictionary st) wc of
           Inl e \<Rightarrow> Inl e
         | Inr True \<Rightarrow> lzwLoop cs (st\<lparr> s_w := wc \<rparr>)
         | Inr False \<Rightarrow>
             lzwLoop cs
               \<lparr> s_dictionary = dictSet (s_dictionary st) wc (s_dictSize st),
                 s_w = [c],
                 s_result = s_result st @ [s_dictionary st (s_w st)],
                 s_steps = s_steps st @
                   [\<lparr> l_step = length (s_steps st) + 1, l_w = s_w st, l_k = [c],
                      l_output = s_dictionary st (s_w st), l_addedToDict = wc,
                      l_newCode = Some (s_dictSize st) \<rparr>],
                 s_dictSize = s_dictSize st + 1 \<rparr>)"

text \<open>The flush after the loop: \<^verbatim>\<open>if (w !== "") { ... }\<close>\<close>

definition lzwFlush :: "lzw_state \<Rightarrow> lzw_state" where
  "lzwFlush st =
     (if s_w st \<noteq> [] then
        st\<lparr> s_result := s_result st @ [s_dictionary st (s_w st)],
            s_steps := s_steps st @
              [\<lparr> l_step = length (s_steps st) + 1, l_w = s_w st, l_k = ustr ''EOF'',
                 l_output = s_dictionary st (s_w st), l_addedToDict = ustr ''-'',
                 l_newCode = None \<rparr>] \<rparr>
      else st)"

text \<open>\<^verbatim>\<open>result.join(" ")\<close>: an \<^verbatim>\<open>undefined\<close> element is joined as the empty text.\<close>

fun joinCodes :: "nat option list \<Rightarrow> string" where
  "joinCodes [] = []"
| "joinCodes [x] = (case x of None \<Rightarrow> [] | Some n \<Rightarrow> toStringRadix 10 n)"
| "joinCodes (x # y # ys) =
     (case x of None \<Rightarrow> [] | Some n \<Rightarrow> toStringRadix 10 n) @ '' '' @ joinCodes (y # ys)"

definition compressLZW :: "ustring \<Rightarrow> js_error + (lzw_step, unit, unit) CompressionResult" where
  "compressLZW input =
     (if input = [] then Inr emptyResult
      else case lzwLoop input \<lparr> s_dictionary = lzwSeed, s_w = [], s_result = [],
                                s_steps = [], s_dictSize = 256 \<rparr> of
             Inl e \<Rightarrow> Inl e
           | Inr st \<Rightarrow>
               (let fin = lzwFlush st;
                    os = int (length input) * 8;
                    cs = int (length (s_result fin)) * 12
                in Inr \<lparr> encoded = joinCodes (s_result fin), originalSize = os,
                         compressedSize = cs, ratio = ratioOf cs os, steps = s_steps fin,
                         dictionary = None, tree = None \<rparr>))"

text \<open>
  The invariant of the loop on inputs of bytes: every single byte is a key, the current
  prefix is empty or a key, and every code emitted so far is defined.
\<close>

definition lzwInv :: "lzw_state \<Rightarrow> bool" where
  "lzwInv st =
     ((\<forall>c<256. s_dictionary st [c] \<noteq> None) \<and>
      (s_w st = [] \<or> s_dictionary st (s_w st) \<noteq> None) \<and>
      (\<forall>s\<in>set (s_steps st). l_output s \<noteq> None) \<and>
      s_result st = map l_output (s_steps st))"

section \<open>Arithmetic coding\<close>

text \<open>
  Probabilities and interval bounds are JavaScript doubles in the source and exact
  rationals here. \<^verbatim>\<open>x.toFixed(d)\<close> for \<open>x \<ge> 0\<close> prints the integer nearest to
  \<open>x * 10^d\<close> (the larger one on a tie) with a decimal point before its last \<open>d\<close>
  digits.
\<close>

definition toFixed :: "nat \<Rightarrow> rat \<Rightarrow> string" where
  "toFixed d x =
     (let n = nat \<lfloor>x * 10 ^ d + 1 / 2\<rfloor>;
          s = padStart (d + 1) (toStringRadix 10 n)
      in take (length s - d) s @ (if d = 0 then [] else ''.'' @ drop (length s - d) s))"

text \<open>
  \<^verbatim>\<open>freqs[char]\<close> for a key taken from \<^verbatim>\<open>freqs\<close> itself; the count of an absent key
  is not needed by any caller.
\<close>

definition freqOf :: "nat jsObject \<Rightarrow> string \<Rightarrow> nat" where
  "freqOf freqs ch = (case map_of freqs ch of None \<Rightarrow> 0 | Some n \<Rightarrow> n)"

record prob_entry =
  p_start :: rat
  p_end :: rat
  p_p :: rat

record arith_step =
  a_char :: string
  a_low :: rat
  a_high :: rat
  a_rangeStr :: string

text \<open>\<^verbatim>\<open>Object.keys(freqs).sort()\<close>: the default order compares the keys by code unit.\<close>

definition sortedChars :: "nat jsObject \<Rightarrow> string list" where
  "sortedChars freqs = sort_key (\<lambda>k. (map of_char k :: nat list)) (objectKeys freqs)"

fun buildProbs ::
  "string list \<Rightarrow> nat jsObject \<Rightarrow> nat \<Rightarrow> rat \<Rightarrow> prob_entry jsObject \<Rightarrow> prob_entry jsObject" where
  "buildProbs [] freqs len currentStart probs = probs"
| "buildProbs (ch # chs) freqs len currentStart probs =
     (let p = of_nat (freqOf freqs ch) / of_nat len
      in buildProbs chs freqs len (currentStart + p)
           (AList.update ch \<lparr> p_start = currentStart, p_end = currentStart + p, p_p = p \<rparr> probs))"

text \<open>
  The narrowing loop. Reading \<^verbatim>\<open>probs[char].end\<close> of a symbol without an entry would
  raise \<^verbatim>\<open>TypeError\<close>.
\<close>

fun narrow ::
  "string \<Rightarrow> prob_entry jsObject \<Rightarrow> rat \<Rightarrow> rat \<Rightarrow> arith_step list \<Rightarrow>
   js_error + (rat \<times> rat \<times> arith_step list)" where
  "narrow [] probs low high rangeSteps = Inr (low, high, rangeSteps)"
| "narrow (c # cs) probs low high rangeSteps =
     (case map_of probs [c] of
        None \<Rightarrow> Inl TypeError
      | Some e \<Rightarrow>
          (let range = high - low;
               newHigh = low + range * p_end e;
               newLow = low + range * p_start e
           in narrow cs probs newLow newHigh
                (rangeSteps @
                 [\<lparr> a_char = [c], a_low = newLow, a_high = newHigh,
                    a_rangeStr = ''['' @ toFixed 6 newLow @ '', '' @ toFixed 6 newHigh @ '')'' \<rparr>])))"

definition arithmeticProbs :: "string \<Rightarrow> prob_entry jsObject" where
  "arithmeticProbs input =
     (let safeInput = take 15 input; freqs = countFreqs safeInput []
      in buildProbs (sortedChars freqs) freqs (length safeInput) 0 [])"

definition arithmeticInterval :: "string \<Rightarrow> js_error + (rat \<times> rat \<times> arith_step list)" where
  "arithmeticInterval input = narrow (take 15 input) (arithmeticProbs input) 0 1 []"

text \<open>\<^verbatim>\<open>tag = (low + high) / 2\<close>\<close>

definition arithmeticTag :: "rat \<Rightarrow> rat \<Rightarrow> rat" where
  "arithmeticTag low high = (low + high) / 2"

text \<open>
  The entropy loop and \<^verbatim>\<open>Math.ceil(safeInput.length * entropy)\<close>, with the real
  logarithm in the place of \<^verbatim>\<open>Math.log2\<close>.
\<close>

definition theoreticalBits :: "string \<Rightarrow> int" where
  "theoreticalBits input =
     (let safeInput = take 15 input;
          freqs = countFreqs safeInput [];
          entropy = foldl (\<lambda>e ch. e - (real (freqOf freqs ch) / real (length safeInput)) *
                                     log 2 (real (freqOf freqs ch) / real (length safeInput)))
                      0 (sortedChars freqs)
      in \<lceil>real (length safeInput) * entropy\<rceil>)"

definition compressArithmetic ::
  "string \<Rightarrow> js_error + (arith_step, prob_entry jsObject, unit) CompressionResult" where
  "compressArithmetic input =
     (if input = [] then Inr emptyResult
      else case arithmeticInterval input of
             Inl e \<Rightarrow> Inl e
           | Inr (low, high, rangeSteps) \<Rightarrow>
               (let safeInput = take 15 input;
                    isTruncated = (length input > 15);
                    tag = arithmeticTag low high;
                    os = int (length safeInput) * 8
                in Inr \<lparr> encoded = toFixed 10 tag @ (if isTruncated then ''...'' else []),
                         originalSize = os,
                         compressedSize = theoreticalBits input,
                         ratio = ratioOf (theoreticalBits input) os,
                         steps = rangeSteps,
                         dictionary = Some (arithmeticProbs input), tree = None \<rparr>))"

section \<open>Tunstall coding\<close>

text \<open>
  Probabilities are exact rationals, as for the arithmetic encoder. The two \<^verbatim>\<open>while\<close>
  loops of \<^verbatim>\<open>compressTunstall\<close> have no bound that the code states, so each is a
  partial function: \<open>None\<close> is a loop that is never left.
\<close>

record tunstall_entry =
  t_seq :: string
  t_prob :: rat

record tunstall_step =
  ts_seq :: string
  ts_code :: string

definition BIT_WIDTH :: nat where
  "BIT_WIDTH = 4"

definition MAX_DICT_SIZE :: int where
  "MAX_DICT_SIZE = 2 ^ BIT_WIDTH"

text \<open>\<^verbatim>\<open>freqs[char] / total\<close>; \<open>tot\<close> is \<^verbatim>\<open>total\<close>, the length of the input\<close>

definition charProb :: "nat jsObject \<Rightarrow> nat \<Rightarrow> string \<Rightarrow> rat" where
  "charProb freqs tot ch = of_nat (freqOf freqs ch) / of_nat tot"

text \<open>The entries pushed for the removed entry \<^verbatim>\<open>best\<close>, one per alphabet symbol.\<close>

definition expandEntry :: "string list \<Rightarrow> nat jsObject \<Rightarrow> nat \<Rightarrow> tunstall_entry \<Rightarrow> tunstall_entry list" where
  "expandEntry alphabet freqs tot best =
     map (\<lambda>ch. \<lparr> t_seq = t_seq best @ ch, t_prob = t_prob best * charProb freqs tot ch \<rparr>) alphabet"

text \<open>
  The growth loop; \<open>dict\<close> is the array \<^verbatim>\<open>dictionary\<close>. The in-place sort is stable and descending in \<^verbatim>\<open>prob\<close>;
  \<^verbatim>\<open>shift\<close> on an empty array gives \<^verbatim>\<open>undefined\<close> and the loop is left by
  \<^verbatim>\<open>break\<close>.
\<close>

partial_function (option) tunstallGrow ::
  "string list \<Rightarrow> nat jsObject \<Rightarrow> nat \<Rightarrow> tunstall_entry list \<Rightarrow> tunstall_entry list option" where
  "tunstallGrow alphabet freqs tot dict =
     (if int (length dict) + int (length alphabet) - 1 \<le> MAX_DICT_SIZE then
        (case sort_key (\<lambda>e. - t_prob e) dict of
           [] \<Rightarrow> Some []
         | best # rest \<Rightarrow>
             tunstallGrow alphabet freqs tot (rest @ expandEntry alphabet freqs tot best))
      else Some dict)"

declare tunstallGrow.simps [code]

text \<open>
  \<^verbatim>\<open>dictionary.forEach((item, index) => { codeMap[item.seq] = ... })\<close>; the second
  argument is the index of the first remaining entry.
\<close>

definition tunstallCode :: "nat \<Rightarrow> string" where
  "tunstallCode index = padStart BIT_WIDTH (toStringRadix 2 index)"

fun buildCodeMap :: "tunstall_entry list \<Rightarrow> nat \<Rightarrow> string jsObject \<Rightarrow> string jsObject" where
  "buildCodeMap [] index codeMap = codeMap"
| "buildCodeMap (item # items) index codeMap =
     buildCodeMap items (index + 1) (AList.update (t_seq item) (tunstallCode index) codeMap)"

text \<open>\<^verbatim>\<open>Object.keys(codeMap).sort((a, b) => b.length - a.length)\<close>\<close>

definition sortedKeys :: "string jsObject \<Rightarrow> string list" where
  "sortedKeys codeMap = sort_key (\<lambda>k. - int (length k)) (objectKeys codeMap)"

text \<open>
  The tokenizer loop; \<open>rest\<close> is the input from index \<open>i\<close> on, so
  \<^verbatim>\<open>input.startsWith(seq, i)\<close> is \<^const>\<open>prefix\<close> and \<^verbatim>\<open>i += seq.length\<close> drops the
  key. The inner \<^verbatim>\<open>for\<close> loop stops at the first key that matches.
\<close>

partial_function (option) tunstallTokens ::
  "string list \<Rightarrow> string jsObject \<Rightarrow> string \<Rightarrow> string \<Rightarrow> tunstall_step list \<Rightarrow>
   (string \<times> tunstall_step list) option" where
  "tunstallTokens keys codeMap rest enc sts =
     (if rest = [] then Some (enc, sts)
      else (case find (\<lambda>seq. prefix seq rest) keys of
              Some seq \<Rightarrow>
                tunstallTokens keys codeMap (drop (length seq) rest)
                  (enc @ lookupText codeMap seq)
                  (sts @ [\<lparr> ts_seq = seq, ts_code = lookupText codeMap seq \<rparr>])
            | None \<Rightarrow>
                tunstallTokens keys codeMap (tl rest) (enc @ ''ERR'')
                  (sts @ [\<lparr> ts_seq = [hd rest], ts_code = ''ERR'' \<rparr>])))"

declare tunstallTokens.simps [code]

text \<open>The dictionary after the growth loop, for a non-empty input.\<close>

definition tunstallDictionary :: "string \<Rightarrow> tunstall_entry list option" where
  "tunstallDictionary input =
     (let freqs = countFreqs input [];
          alphabet = objectKeys freqs;
          tot = length input
      in tunstallGrow alphabet freqs tot
           (map (\<lambda>ch. \<lparr> t_seq = ch, t_prob = charProb freqs tot ch \<rparr>) alphabet))"

definition compressTunstall ::
  "string \<Rightarrow> (tunstall_step, string jsObject, unit) CompressionResult option" where
  "compressTunstall input =
     (if input = [] then Some emptyResult
      else case tunstallDictionary input of
             None \<Rightarrow> None
           | Some dict \<Rightarrow>
               (let codeMap = buildCodeMap dict 0 []
                in case tunstallTokens (sortedKeys codeMap) codeMap input [] [] of
                     None \<Rightarrow> None
                   | Some (enc, sts) \<Rightarrow>
                       Some \<lparr> encoded = enc, originalSize = int (length input) * 8,
                              compressedSize = int (length enc),
                              ratio = ratioOf (int (length enc)) (int (length input) * 8),
                              steps = sts, dictionary = Some codeMap, tree = None \<rparr>))"

text \<open>
  The invariant of the growth loop. The alphabet is a list of distinct symbols of one
  character each; the sequences of the dictionary are distinct, none is a prefix of
  another, none is empty, and there are between one and \<open>MAX_DICT_SIZE\<close> of them.
\<close>

definition incomparable :: "string list \<Rightarrow> bool" where
  "incomparable S = (distinct S \<and> (\<forall>x\<in>set S. \<forall>y\<in>set S. prefix x y \<longrightarrow> x = y))"

definition symbolList :: "string list \<Rightarrow> bool" where
  "symbolList alphabet = (distinct alphabet \<and> (\<forall>ch\<in>set alphabet. length ch = 1))"

definition growInv :: "tunstall_entry list \<Rightarrow> bool" where
  "growInv dict =
     (dict \<noteq> [] \<and> int (length dict) \<le> MAX_DICT_SIZE \<and> incomparable (map t_seq dict) \<and>
      (\<forall>e\<in>set dict. t_seq e \<noteq> []))"

section \<open>Properties\<close>

subsection \<open>Run-length encoding\<close>

lemma rleLoop_concat:
  "rleLoop xs count enc sts = (enc', sts') \<Longrightarrow> enc = concat (map rle_code sts) \<Longrightarrow>
   enc' = concat (map rle_code sts')"
  by (induction xs count enc sts rule: rleLoop.induct) (auto split: if_splits)

text \<open>
  Claim C9: \<^verbatim>\<open>compressRLE("AAAAAAABBBCCDDDDDDEEE")\<close> records the five runs
  (A,7), (B,3), (C,2), (D,6), (E,3) in this order, its encoded text is
  \<^verbatim>\<open>7A3B2C6D3E\<close>, the compressed size is 80 bits (16 per run) and the original size
  is 168 bits (8 per character).
\<close>

theorem compressRLE_example:
  "map (\<lambda>s. (rle_char s, rle_count s)) (steps (compressRLE ''AAAAAAABBBCCDDDDDDEEE'')) =
     [(CHR ''A'', 7), (CHR ''B'', 3), (CHR ''C'', 2), (CHR ''D'', 6), (CHR ''E'', 3)] \<and>
   length (steps (compressRLE ''AAAAAAABBBCCDDDDDDEEE'')) = 5 \<and>
   encoded (compressRLE ''AAAAAAABBBCCDDDDDDEEE'') = ''7A3B2C6D3E'' \<and>
   compressedSize (compressRLE ''AAAAAAABBBCCDDDDDDEEE'') = 80 \<and>
   originalSize (compressRLE ''AAAAAAABBBCCDDDDDDEEE'') = 168"
  by (simp add: compressRLE_def toStringRadix.simps digitChar_def)

subsection \<open>Golomb coding\<close>

text \<open>The halving computation of \<open>b\<close> is the ceiling of the binary logarithm.\<close>

lemma ceilLog2_log: "0 < n \<Longrightarrow> int (ceilLog2 n) = \<lceil>log 2 (real n)\<rceil>"
proof (induction n rule: ceilLog2.induct)
  case (1 n)
  show ?case
  proof (cases "n \<le> 1")
    case True
    with 1 have "n = 1" by simp
    then show ?thesis by (simp add: ceilLog2.simps)
  next
    case False
    then have n2: "2 \<le> n" by simp
    have "int (ceilLog2 n) = int (ceilLog2 ((n - 1) div 2 + 1)) + 1"
      using False by (subst ceilLog2.simps) simp
    also have "\<dots> = \<lceil>log 2 (real ((n - 1) div 2 + 1))\<rceil> + 1"
      using 1 False by simp
    also have "\<dots> = \<lceil>log 2 (real n)\<rceil>"
      using ceiling_log2_div2[OF n2] by simp
    finally show ?thesis .
  qed
qed

lemma golombLoop_eq:
  "golombLoop M ns enc sts =
     (enc @ concat (map (\<lambda>n. g_code (golombStep M n)) ns), sts @ map (golombStep M) ns)"
  by (induction M ns enc sts rule: golombLoop.induct) auto

lemma compressGolomb_steps:
  "steps (compressGolomb inputStr mParam) = map (golombStep (golombM mParam)) (golombNumbers inputStr)"
  by (simp add: compressGolomb_def emptyResult_def golombLoop_eq Let_def)

lemma compressGolomb_encoded:
  "encoded (compressGolomb inputStr mParam) =
     concat (map (\<lambda>n. g_code (golombStep (golombM mParam) n)) (golombNumbers inputStr))"
  by (simp add: compressGolomb_def emptyResult_def golombLoop_eq Let_def)

text \<open>Tokens: a separator splits the list of non-empty tokens in two.\<close>

lemma jsSplit_nonempty: "jsSplit s \<noteq> []"
  by (induction s rule: jsSplit.induct) (auto split: list.splits)

lemma jsSplit_Cons_token:
  "\<not> isSep c \<Longrightarrow> jsSplit (c # cs) = (c # hd (jsSplit cs)) # tl (jsSplit cs)"
  using jsSplit_nonempty[of cs] by (cases "jsSplit cs") auto

lemma jsSplit_dropWhile:
  "filter (\<lambda>t. t \<noteq> []) (jsSplit (dropWhile isSep s)) = filter (\<lambda>t. t \<noteq> []) (jsSplit s)"
proof (cases s)
  case Nil
  then show ?thesis by simp
next
  case (Cons c cs)
  then show ?thesis by (cases "isSep c") simp_all
qed

lemma jsSplit_hd_tl:
  "filter (\<lambda>t. t \<noteq> []) (jsSplit s) =
     filter (\<lambda>t. t \<noteq> []) [hd (jsSplit s)] @ filter (\<lambda>t. t \<noteq> []) (tl (jsSplit s))"
  using jsSplit_nonempty[of s] by (cases "jsSplit s") auto

lemma jsSplit_append_sep:
  assumes "isSep s"
  shows "hd (jsSplit (a @ s # b)) = hd (jsSplit a) \<and>
         filter (\<lambda>t. t \<noteq> []) (tl (jsSplit (a @ s # b))) =
           filter (\<lambda>t. t \<noteq> []) (tl (jsSplit a)) @ filter (\<lambda>t. t \<noteq> []) (jsSplit b)"
proof (induction a)
  case Nil
  show ?case using assms by (simp add: jsSplit_dropWhile)
next
  case (Cons c cs)
  show ?case
  proof (cases "isSep c")
    case True
    have "filter (\<lambda>t. t \<noteq> []) (jsSplit (dropWhile isSep (cs @ s # b))) =
          filter (\<lambda>t. t \<noteq> []) (jsSplit (cs @ s # b))"
      by (rule jsSplit_dropWhile)
    also have "\<dots> = filter (\<lambda>t. t \<noteq> []) [hd (jsSplit (cs @ s # b))] @
                     filter (\<lambda>t. t \<noteq> []) (tl (jsSplit (cs @ s # b)))"
      by (rule jsSplit_hd_tl)
    also have "\<dots> = filter (\<lambda>t. t \<noteq> []) [hd (jsSplit cs)] @
                     filter (\<lambda>t. t \<noteq> []) (tl (jsSplit cs)) @ filter (\<lambda>t. t \<noteq> []) (jsSplit b)"
      using Cons.IH by simp
    also have "\<dots> = filter (\<lambda>t. t \<noteq> []) (jsSplit cs) @ filter (\<lambda>t. t \<noteq> []) (jsSplit b)"
      using jsSplit_hd_tl[of cs] by simp
    also have "\<dots> = filter (\<lambda>t. t \<noteq> []) (jsSplit (dropWhile isSep cs)) @
                     filter (\<lambda>t. t \<noteq> []) (jsSplit b)"
      by (simp add: jsSplit_dropWhile)
    finally show ?thesis using True by simp
  next
    case False
    have 1: "jsSplit ((c # cs) @ s # b) =
             (c # hd (jsSplit (cs @ s # b))) # tl (jsSplit (cs @ s # b))"
      using jsSplit_Cons_token[OF False, of "cs @ s # b"] by (simp only: append_Cons)
    have 2: "jsSplit (c # cs) = (c # hd (jsSplit cs)) # tl (jsSplit cs)"
      by (rule jsSplit_Cons_token[OF False])
    show ?thesis
      unfolding 1 2 using Cons.IH by (simp only: list.sel simp_thms)
  qed
qed

lemma jsSplit_filter_append:
  "isSep s \<Longrightarrow>
   filter (\<lambda>t. t \<noteq> []) (jsSplit (a @ s # b)) =
     filter (\<lambda>t. t \<noteq> []) (jsSplit a) @ filter (\<lambda>t. t \<noteq> []) (jsSplit b)"
  using jsSplit_append_sep[of s a b] jsSplit_hd_tl[of "a @ s # b"] jsSplit_hd_tl[of a]
  by simp

lemma parseInt_empty: "parseInt [] = None"
  by (simp add: parseInt_def)

lemma golombNumbers_nonempty_tokens:
  "golombNumbers inputStr =
     map (\<lambda>v. nat (the v)) (filter keepNumber (map parseInt (filter (\<lambda>t. t \<noteq> []) (jsSplit inputStr))))"
proof -
  have "filter keepNumber (map parseInt ts) =
        filter keepNumber (map parseInt (filter (\<lambda>t. t \<noteq> []) ts))" for ts
    by (induction ts) (auto simp: parseInt_empty keepNumber_def)
  then show ?thesis by (simp add: golombNumbers_def)
qed

lemma golombNumbers_append:
  "isSep s \<Longrightarrow> golombNumbers (a @ s # b) = golombNumbers a @ golombNumbers b"
  by (simp add: golombNumbers_nonempty_tokens jsSplit_filter_append)

lemma jsSplit_token: "\<forall>c\<in>set t. \<not> isSep c \<Longrightarrow> jsSplit t = [t]"
proof (induction t)
  case Nil
  show ?case by simp
next
  case (Cons c cs)
  then have c: "\<not> isSep c" and cs: "jsSplit cs = [cs]" by simp_all
  show ?case
    unfolding jsSplit_Cons_token[OF c] cs by simp
qed

lemma golombNumbers_token:
  "\<forall>c\<in>set t. \<not> isSep c \<Longrightarrow>
   golombNumbers t = (case parseInt t of None \<Rightarrow> [] | Some v \<Rightarrow> if 0 \<le> v then [nat v] else [])"
  by (simp add: golombNumbers_def jsSplit_token keepNumber_def split: option.splits)

lemma compressGolomb_numbers:
  "golombNumbers x = golombNumbers y \<Longrightarrow> compressGolomb x mParam = compressGolomb y mParam"
  by (simp add: compressGolomb_def)

lemma golombNumbers_tokens:
  "golombNumbers inputStr =
     concat (map (\<lambda>t. case parseInt t of None \<Rightarrow> [] | Some v \<Rightarrow> if 0 \<le> v then [nat v] else [])
               (jsSplit inputStr))"
proof -
  have "map (\<lambda>v. nat (the v)) (filter keepNumber (map parseInt ts)) =
        concat (map (\<lambda>t. case parseInt t of None \<Rightarrow> [] | Some v \<Rightarrow> if 0 \<le> v then [nat v] else []) ts)"
    for ts
    by (induction ts) (auto simp: keepNumber_def split: option.splits)
  then show ?thesis by (simp add: golombNumbers_def)
qed

lemma compressGolomb_sizes:
  "originalSize (compressGolomb inputStr mParam) = 32 * int (length (golombNumbers inputStr)) \<and>
   compressedSize (compressGolomb inputStr mParam) = int (length (encoded (compressGolomb inputStr mParam)))"
  by (simp add: compressGolomb_def emptyResult_def golombLoop_eq Let_def)

text \<open>
  What the filter removes leaves no trace: a token from which \<^verbatim>\<open>parseInt\<close> reads no
  number (\<^verbatim>\<open>NaN\<close>) or a negative number can be deleted from the input without changing
  the result, whether it stands between two separators, at the start or at the end.
  The numbers of the trace steps are the non-negative values read from the tokens, in
  order, the original size is 32 bits for each of them, and the compressed size is the
  length of the concatenated codewords of the steps.
\<close>

lemma golomb_drops_invalid_tokens:
  assumes tok: "\<forall>c\<in>set t. \<not> isSep c"
    and bad: "parseInt t = None \<or> (\<exists>v. parseInt t = Some v \<and> v < 0)"
    and s1: "isSep s1" and s2: "isSep s2"
  shows "compressGolomb (a @ s1 # t @ s2 # b) mParam = compressGolomb (a @ s1 # b) mParam \<and>
         compressGolomb (t @ s2 # b) mParam = compressGolomb b mParam \<and>
         compressGolomb (a @ s1 # t) mParam = compressGolomb a mParam \<and>
         golombNumbers inputStr =
           concat (map (\<lambda>t. case parseInt t of None \<Rightarrow> [] | Some v \<Rightarrow> if 0 \<le> v then [nat v] else [])
                     (jsSplit inputStr)) \<and>
         map g_number (steps (compressGolomb inputStr mParam)) = golombNumbers inputStr \<and>
         encoded (compressGolomb inputStr mParam) =
           concat (map g_code (steps (compressGolomb inputStr mParam))) \<and>
         originalSize (compressGolomb inputStr mParam) = 32 * int (length (golombNumbers inputStr)) \<and>
         compressedSize (compressGolomb inputStr mParam) =
           int (length (encoded (compressGolomb inputStr mParam)))"
proof -
  from tok bad have t: "golombNumbers t = []"
    by (auto simp: golombNumbers_token)
  have 1: "golombNumbers (a @ s1 # t @ s2 # b) = golombNumbers (a @ s1 # b)"
    using t by (simp add: golombNumbers_append[OF s1] golombNumbers_append[OF s2])
  have 2: "golombNumbers (t @ s2 # b) = golombNumbers b"
    using t by (simp add: golombNumbers_append[OF s2])
  have 3: "golombNumbers (a @ s1 # t) = golombNumbers a"
    using t by (simp add: golombNumbers_append[OF s1])
  have 4: "map g_number (steps (compressGolomb inputStr mParam)) = golombNumbers inputStr"
    by (simp add: compressGolomb_steps comp_def golombStep_def Let_def)
  have 5: "encoded (compressGolomb inputStr mParam) =
           concat (map g_code (steps (compressGolomb inputStr mParam)))"
    by (simp add: compressGolomb_steps compressGolomb_encoded comp_def)
  show ?thesis
    using compressGolomb_numbers[OF 1] compressGolomb_numbers[OF 2] compressGolomb_numbers[OF 3]
      golombNumbers_tokens[of inputStr] 4 5 compressGolomb_sizes[of inputStr mParam]
    by (intro conjI) blast+
qed

lemma compressGolomb_mixed_tokens: "map g_number (steps (compressGolomb ''5,abc 7,-3'' 4)) = [5, 7]"
  by code_simp

lemma golomb_drops_invalid_tokens_example:
  "parseInt ''abc'' = None \<and> parseInt ''-3'' = Some (- 3) \<and>
   compressGolomb ''5,abc 7,-3'' 4 = compressGolomb ''5,7,-3'' 4 \<and>
   compressGolomb ''5,7,-3'' 4 = compressGolomb ''5,7'' 4 \<and>
   map g_number (steps (compressGolomb ''5,abc 7,-3'' 4)) = [5, 7]"
proof -
  have a: "\<forall>c\<in>set ''abc''. \<not> isSep c" by code_simp
  have b: "\<forall>c\<in>set ''-3''. \<not> isSep c" by code_simp
  have c: "isSep CHR '',''" by code_simp
  have d: "isSep CHR '' ''" by code_simp
  have e: "parseInt ''abc'' = None" by code_simp
  have f: "parseInt ''-3'' = Some (- 3)" by code_simp
  have g: "\<exists>v. parseInt ''-3'' = Some v \<and> v < 0"
    by (rule exI[of _ "- 3"]) (simp add: f)
  from golomb_drops_invalid_tokens[OF a disjI1[OF e] c d, of "''5''" "''7,-3''" 4]
  have 1: "compressGolomb ''5,abc 7,-3'' 4 = compressGolomb ''5,7,-3'' 4"
    by simp
  from golomb_drops_invalid_tokens[OF b disjI2[OF g] c c, of "''5,7''" _ 4]
  have 2: "compressGolomb ''5,7,-3'' 4 = compressGolomb ''5,7'' 4"
    by simp
  show ?thesis
    using e f 1 2 compressGolomb_mixed_tokens by (intro conjI)
qed

text \<open>
  \<^verbatim>\<open>parseInt\<close> reads the leading integer of a token and ignores the rest, so tokens
  that are not non-negative integers pass the filter with the value of their prefix.
\<close>

lemma golomb_prefix_tokens_kept:
  "golombNumbers ''12abc'' = [12] \<and> golombNumbers ''3.9'' = [3]"
  by code_simp

text \<open>
  Claim C7 says that every non-numeric token and every negative token is dropped and
  adds no number, no trace step and no bits to the size fields. The code does not do
  this for the negative token \<^verbatim>\<open>-0.5\<close>: \<^verbatim>\<open>parseInt\<close> reads \<^verbatim>\<open>-0\<close> from it, the test
  \<^verbatim>\<open>n >= 0\<close> lets \<^verbatim>\<open>-0\<close> pass (the number 0 of the model), and the token is encoded as
  the number 0: one step with the codeword \<^verbatim>\<open>000\<close>, 32 bits of original size and 3 bits
  of compressed size; after another number it lengthens the encoded stream.
\<close>

theorem golomb_negative_fraction_kept:
  "parseInt ''-0.5'' = Some 0 \<and>
   golombNumbers ''-0.5'' = [0] \<and>
   steps (compressGolomb ''-0.5'' 4) =
     [\<lparr> g_number = 0, g_q = 0, g_r = 0, g_unary = ''0'', g_binary = ''00'', g_code = ''000'' \<rparr>] \<and>
   encoded (compressGolomb ''-0.5'' 4) = ''000'' \<and>
   originalSize (compressGolomb ''-0.5'' 4) = 32 \<and>
   compressedSize (compressGolomb ''-0.5'' 4) = 3 \<and>
   encoded (compressGolomb ''7,-0.5'' 4) \<noteq> encoded (compressGolomb ''7'' 4)"
  by code_simp

text \<open>
  Claim C2, as the specification states it, fails: for \<open>M = 4\<close> the cutoff is
  \<open>2^2 - 4 = 0\<close>, not 2, the binary part of 10 is \<^verbatim>\<open>10\<close>, not \<^verbatim>\<open>00\<close>, and the
  codeword is \<^verbatim>\<open>11010\<close>, not \<^verbatim>\<open>11000\<close>.
\<close>

theorem golomb_example_counterexample:
  "golombCutoff (golombM 4) \<noteq> 2 \<and>
   map g_binary (steps (compressGolomb ''10'' 4)) \<noteq> [''00''] \<and>
   map g_code (steps (compressGolomb ''10'' 4)) \<noteq> [''11000'']"
  by code_simp

text \<open>
  Claim C2, amended: \<^verbatim>\<open>compressGolomb\<close> with divisor \<open>M = 4\<close> applied to the single
  number 10 computes \<open>b = 2\<close> and \<open>cutoff = 0\<close>, quotient 2 and remainder 2, the unary
  part \<^verbatim>\<open>110\<close> and, the remainder being at least the cutoff, the binary part
  \<open>2 + 0\<close> written in 2 bits, \<^verbatim>\<open>10\<close>; the codeword is \<^verbatim>\<open>11010\<close>.
\<close>

theorem golomb_example:
  "golombM 4 = 4 \<and> golombB (golombM 4) = 2 \<and> golombCutoff (golombM 4) = 0 \<and>
   steps (compressGolomb ''10'' 4) =
     [\<lparr> g_number = 10, g_q = 2, g_r = 2, g_unary = ''110'', g_binary = ''10'',
        g_code = ''11010'' \<rparr>] \<and>
   g_binary (golombStep 4 10) = padStart 2 (toStringRadix 2 (2 + 0)) \<and>
   encoded (compressGolomb ''10'' 4) = ''11010''"
  by code_simp

subsection \<open>Arithmetic coding\<close>

lemma floor_rat_numeral: "\<lfloor>(numeral a / numeral b :: rat)\<rfloor> = numeral a div numeral b"
  by (metis floor_divide_of_int_eq of_int_numeral)

lemma arithmeticProbs_BABA:
  "arithmeticProbs ''BABA'' =
     [(''A'', \<lparr>p_start = 0, p_end = 1 / 2, p_p = 1 / 2\<rparr>),
      (''B'', \<lparr>p_start = 1 / 2, p_end = 1, p_p = 1 / 2\<rparr>)]"
  by (simp add: arithmeticProbs_def sortedChars_def objectKeys_def objectEntries_def
        isArrayIndex_def isRadixDigit_def digitValue_def freqOf_def Let_def)

lemma arithmeticInterval_BABA:
  "\<exists>sts. arithmeticInterval ''BABA'' = Inr (5 / 8, 11 / 16, sts)"
  by (simp add: arithmeticInterval_def arithmeticProbs_BABA Let_def)

lemma toFixed_tag_BABA: "toFixed 10 (21 / 32) = ''0.6562500000''"
proof -
  have fl: "nat \<lfloor>(21 / 32 :: rat) * 10 ^ 10 + 1 / 2\<rfloor> = 6562500000"
    by (simp add: floor_rat_numeral)
  have ts: "toStringRadix 10 6562500000 = ''6562500000''"
    by (simp add: toStringRadix.simps digitChar_def)
  show ?thesis
    unfolding toFixed_def Let_def fl ts by (simp add: padStart_def)
qed

text \<open>
  Claim C8: for the input \<^verbatim>\<open>BABA\<close> the terminal interval is \<open>[5/8, 11/16)\<close>, which is
  not empty, and the tag, the midpoint \<open>21/32\<close> from which the \<^verbatim>\<open>encoded\<close> field
  \<^verbatim>\<open>0.6562500000\<close> is printed, lies strictly between the two bounds. All the values
  of this run are dyadic fractions with at most five binary digits, which doubles
  represent exactly, so the rational computation is the one the code performs.
\<close>

theorem arithmetic_BABA:
  "\<exists>low high sts r.
     arithmeticInterval ''BABA'' = Inr (low, high, sts) \<and>
     low = 5 / 8 \<and> high = 11 / 16 \<and> low < high \<and>
     low < arithmeticTag low high \<and> arithmeticTag low high < high \<and>
     compressArithmetic ''BABA'' = Inr r \<and> steps r = sts \<and>
     dictionary r = Some (arithmeticProbs ''BABA'') \<and>
     encoded r = toFixed 10 (arithmeticTag low high) \<and> encoded r = ''0.6562500000''"
proof -
  obtain sts where i: "arithmeticInterval ''BABA'' = Inr (5 / 8, 11 / 16, sts)"
    using arithmeticInterval_BABA by blast
  have tag: "arithmeticTag (5 / 8) (11 / 16) = 21 / 32"
    by (simp add: arithmeticTag_def)
  define r where "r = \<lparr> encoded = ''0.6562500000'', originalSize = 32,
      compressedSize = theoreticalBits ''BABA'',
      ratio = ratioOf (theoreticalBits ''BABA'') 32, steps = sts,
      dictionary = Some (arithmeticProbs ''BABA''), tree = (None :: unit option) \<rparr>"
  have c: "compressArithmetic ''BABA'' = Inr r"
    by (simp add: compressArithmetic_def i tag toFixed_tag_BABA r_def)
  have "arithmeticInterval ''BABA'' = Inr (5 / 8, 11 / 16, sts) \<and>
     (5 / 8 :: rat) = 5 / 8 \<and> (11 / 16 :: rat) = 11 / 16 \<and> (5 / 8 :: rat) < 11 / 16 \<and>
     5 / 8 < arithmeticTag (5 / 8) (11 / 16) \<and> arithmeticTag (5 / 8) (11 / 16) < 11 / 16 \<and>
     compressArithmetic ''BABA'' = Inr r \<and> steps r = sts \<and>
     dictionary r = Some (arithmeticProbs ''BABA'') \<and>
     encoded r = toFixed 10 (arithmeticTag (5 / 8) (11 / 16)) \<and> encoded r = ''0.6562500000''"
    by (simp add: i c tag toFixed_tag_BABA) (simp add: r_def)
  then show ?thesis by blast
qed

subsection \<open>Tunstall coding: the trace\<close>

lemma tunstallTokens_concat:
  assumes "tunstallTokens keys0 codeMap0 rest0 enc0 sts0 = Some r0"
  shows "enc0 = concat (map ts_code sts0) \<longrightarrow> fst r0 = concat (map ts_code (snd r0))"
proof (rule tunstallTokens.raw_induct
    [where P = "\<lambda>keys codeMap rest enc sts r.
                  enc = concat (map ts_code sts) \<longrightarrow> fst r = concat (map ts_code (snd r))",
     OF _ assms], goal_cases)
  case (1 tok keys codeMap rest enc sts r)
  show ?case
  proof (cases "rest = []")
    case True
    with 1(2) show ?thesis by auto
  next
    case False
    show ?thesis
    proof (cases "find (\<lambda>seq. prefix seq rest) keys")
      case None
      with False 1(2)
      have "tok keys codeMap (tl rest) (enc @ ''ERR'')
              (sts @ [\<lparr>ts_seq = [hd rest], ts_code = ''ERR''\<rparr>]) = Some r"
        by simp
      from 1(1)[OF this] show ?thesis by simp
    next
      case (Some seq)
      with False 1(2)
      have "tok keys codeMap (drop (length seq) rest) (enc @ lookupText codeMap seq)
              (sts @ [\<lparr>ts_seq = seq, ts_code = lookupText codeMap seq\<rparr>]) = Some r"
        by simp
      from 1(1)[OF this] show ?thesis by simp
    qed
  qed
qed

lemma compressTunstall_concat:
  "compressTunstall input = Some r \<Longrightarrow> concat (map ts_code (steps r)) = encoded r"
  by (auto simp: compressTunstall_def emptyResult_def Let_def
        split: if_splits option.splits dest: tunstallTokens_concat)

lemma compressTunstall_ABAC:
  "map_option (\<lambda>r. (encoded r, map ts_code (steps r))) (compressTunstall ''ABAC'') =
     Some (''1001ERR'', [''1001'', ''ERR''])"
  by code_simp

subsection \<open>Plain objects and the frequency table\<close>

lemma set_objectEntries: "set (objectEntries obj) = set obj"
  by (auto simp: objectEntries_def)

lemma length_objectEntries: "length (objectEntries obj) = length obj"
  by (simp add: objectEntries_def sum_length_filter_compl)

lemma set_objectKeys: "set (objectKeys obj) = fst ` set obj"
  by (simp add: objectKeys_def set_objectEntries)

lemma distinct_objectKeys: "distinct (map fst obj) \<Longrightarrow> distinct (objectKeys obj)"
  unfolding objectKeys_def objectEntries_def
  by (auto simp: distinct_map inj_on_def)

lemma countFreqs_keys: "fst ` set (countFreqs cs fr) = fst ` set fr \<union> (\<lambda>c. [c]) ` set cs"
  by (induction cs fr rule: countFreqs.induct) (auto simp: dom_update)

lemma countFreqs_distinct:
  "distinct (map fst fr) \<Longrightarrow> distinct (map fst (countFreqs cs fr))"
  by (induction cs fr rule: countFreqs.induct) (auto simp: distinct_update)

lemma alphabet_set: "set (objectKeys (countFreqs input [])) = (\<lambda>c. [c]) ` set input"
  by (simp add: set_objectKeys countFreqs_keys)

lemma alphabet_distinct: "distinct (objectKeys (countFreqs input []))"
  by (simp add: distinct_objectKeys countFreqs_distinct)

lemma alphabet_length: "length (objectKeys (countFreqs input [])) = card (set input)"
proof -
  have "length (objectKeys (countFreqs input [])) = card (set (objectKeys (countFreqs input [])))"
    using alphabet_distinct by (simp add: distinct_card)
  also have "\<dots> = card ((\<lambda>c. [c]) ` set input)"
    by (simp add: alphabet_set)
  also have "\<dots> = card (set input)"
    by (rule card_image) (simp add: inj_on_def)
  finally show ?thesis .
qed

subsection \<open>Huffman coding\<close>

lemma set_update_subset: "set (AList.update k v al) \<subseteq> insert (k, v) (set al)"
  by (induction al) auto

lemma generateCodes_subset:
  "set (generateCodes t code codes) \<subseteq> set codes \<union> leafCodes t code"
proof (induction t code codes rule: generateCodes.induct)
  case (1 code codes)
  then show ?case by simp
next
  case (2 ch f l r i code codes)
  show ?case
  proof (cases ch)
    case None
    with 2 show ?thesis by auto
  next
    case (Some c)
    then show ?thesis using set_update_subset[of c code codes] by auto
  qed
qed

lemma leafCodes_prefix: "(k, c) \<in> leafCodes t code \<Longrightarrow> prefix code c"
proof (induction t code rule: leafCodes.induct)
  case (1 code)
  then show ?case by simp
next
  case (2 ch f l r i code)
  then show ?case
    by (cases ch) (auto dest: append_prefixD)
qed

lemma branches_incomparable:
  assumes "prefix (code @ ''0'') c1" and "prefix (code @ ''1'') c2"
  shows "\<not> prefix c1 c2"
proof
  assume "prefix c1 c2"
  with assms(1) have "prefix (code @ ''0'') c2" by (rule prefix_order.trans)
  with assms(2) show False
    by (auto simp: prefix_def)
qed

lemma branches_incomparable':
  assumes "prefix (code @ ''1'') c1" and "prefix (code @ ''0'') c2"
  shows "\<not> prefix c1 c2"
proof
  assume "prefix c1 c2"
  with assms(1) have "prefix (code @ ''1'') c2" by (rule prefix_order.trans)
  with assms(2) show False
    by (auto simp: prefix_def)
qed

lemma leafCodes_prefix_free:
  "(k1, c1) \<in> leafCodes t code \<Longrightarrow> (k2, c2) \<in> leafCodes t code \<Longrightarrow> k1 \<noteq> k2 \<Longrightarrow>
   \<not> prefix c1 c2"
proof (induction t code rule: leafCodes.induct)
  case (1 code)
  then show ?case by simp
next
  case (2 ch f l r i code)
  show ?case
  proof (cases ch)
    case (Some c)
    with 2 show ?thesis by simp
  next
    case None
    with 2(3) have m1: "(k1, c1) \<in> leafCodes l (code @ ''0'') \<or> (k1, c1) \<in> leafCodes r (code @ ''1'')"
      by simp
    from None 2(4) have m2: "(k2, c2) \<in> leafCodes l (code @ ''0'') \<or> (k2, c2) \<in> leafCodes r (code @ ''1'')"
      by simp
    from m1 m2 show ?thesis
    proof (elim disjE)
      assume "(k1, c1) \<in> leafCodes l (code @ ''0'')" "(k2, c2) \<in> leafCodes l (code @ ''0'')"
      with 2(1)[OF None] 2(5) show ?thesis by blast
    next
      assume "(k1, c1) \<in> leafCodes r (code @ ''1'')" "(k2, c2) \<in> leafCodes r (code @ ''1'')"
      with 2(2)[OF None] 2(5) show ?thesis by blast
    next
      assume "(k1, c1) \<in> leafCodes l (code @ ''0'')" "(k2, c2) \<in> leafCodes r (code @ ''1'')"
      then show ?thesis
        by (meson branches_incomparable leafCodes_prefix)
    next
      assume "(k1, c1) \<in> leafCodes r (code @ ''1'')" "(k2, c2) \<in> leafCodes l (code @ ''0'')"
      then show ?thesis
        by (meson branches_incomparable' leafCodes_prefix)
    qed
  qed
qed

lemma generateCodes_prefixFree: "prefixFree (generateCodes t [] [])"
  unfolding prefixFree_def
  using generateCodes_subset[of t "[]" "[]"] leafCodes_prefix_free[of _ _ t "[]"]
  by fastforce

lemma huffmanCodes_prefixFree: "prefixFree (fst (huffmanCodes nodes))"
proof (cases "length nodes = 1")
  case True
  then show ?thesis
    by (auto simp: huffmanCodes_def prefixFree_def split: list.splits option.splits)
next
  case False
  then show ?thesis
    by (simp add: huffmanCodes_def Let_def generateCodes_prefixFree)
qed

text \<open>The code table has exactly the symbols of the input as its keys.\<close>

lemma generateCodes_keys:
  "fst ` set (generateCodes t code codes) = fst ` set codes \<union> symbolsOf t"
proof (induction t code codes rule: generateCodes.induct)
  case (1 code codes)
  then show ?case by simp
next
  case (2 ch f l r i code codes)
  show ?case
  proof (cases ch)
    case None
    with 2 show ?thesis by auto
  next
    case (Some c)
    then show ?thesis by (simp add: dom_update)
  qed
qed

lemma huffmanLoop_symbols:
  "(\<Union>n\<in>set (huffmanLoop nodes k). symbolsOf (Some n)) = (\<Union>n\<in>set nodes. symbolsOf (Some n))"
proof (induction nodes k rule: huffmanLoop.induct)
  case (1 nodes k)
  show ?case
  proof (cases "length nodes > 1")
    case False
    then show ?thesis by (subst huffmanLoop.simps) simp
  next
    case True
    have "length (sort_key freq nodes) = length nodes" by simp
    with True obtain l r rest where s: "sort_key freq nodes = l # r # rest"
      by (cases "sort_key freq nodes"; cases "tl (sort_key freq nodes)") auto
    have set: "set nodes = insert l (insert r (set rest))"
      using s by (metis set_sort list.simps(15))
    let ?new = "rest @ [Node None (freq l + freq r) (Some l) (Some r)
                          (''internal-'' @ toStringRadix 10 k)]"
    have "huffmanLoop nodes k = huffmanLoop ?new (k + 1)"
      using True s by (subst huffmanLoop.simps) simp
    moreover have "(\<Union>n\<in>set (huffmanLoop ?new (k + 1)). symbolsOf (Some n)) =
                   (\<Union>n\<in>set ?new. symbolsOf (Some n))"
      using 1[OF True s refl] .
    ultimately show ?thesis
      by (auto simp: set)
  qed
qed

lemma huffmanLoop_length: "nodes \<noteq> [] \<Longrightarrow> length (huffmanLoop nodes k) = 1"
proof (induction nodes k rule: huffmanLoop.induct)
  case (1 nodes k)
  show ?case
  proof (cases "length nodes > 1")
    case False
    with 1(2) have "length nodes = 1" by (cases nodes) auto
    with False show ?thesis by (subst huffmanLoop.simps) simp
  next
    case True
    have "length (sort_key freq nodes) = length nodes" by simp
    with True obtain l r rest where s: "sort_key freq nodes = l # r # rest"
      by (cases "sort_key freq nodes"; cases "tl (sort_key freq nodes)") auto
    let ?new = "rest @ [Node None (freq l + freq r) (Some l) (Some r)
                          (''internal-'' @ toStringRadix 10 k)]"
    have "huffmanLoop nodes k = huffmanLoop ?new (k + 1)"
      using True s by (subst huffmanLoop.simps) simp
    moreover have "length (huffmanLoop ?new (k + 1)) = 1"
      using 1(1)[OF True s refl] by simp
    ultimately show ?thesis by simp
  qed
qed

lemma leafNodes_symbols:
  "(\<Union>n\<in>set (leafNodes freqs). symbolsOf (Some n)) = set (objectKeys freqs)"
proof -
  let ?es = "objectEntries freqs"
  let ?zs = "zip ?es [0 ..< length ?es]"
  have "map fst ?zs = ?es"
    by (simp add: map_fst_zip)
  then have z: "fst ` set ?zs = set ?es"
    by (metis set_map)
  have "(\<Union>n\<in>set (leafNodes freqs). symbolsOf (Some n)) = (\<Union>p\<in>set ?zs. {fst (fst p)})"
    by (simp add: leafNodes_def case_prod_beta)
  also have "\<dots> = fst ` fst ` set ?zs"
    by blast
  also have "\<dots> = fst ` set ?es"
    by (simp only: z)
  also have "\<dots> = set (objectKeys freqs)"
    by (simp add: objectKeys_def)
  finally show ?thesis .
qed

lemma leafNodes_length: "length (leafNodes freqs) = length freqs"
  by (simp add: leafNodes_def length_objectEntries)

lemma leafNodes_char: "n \<in> set (leafNodes freqs) \<Longrightarrow> \<exists>c. char n = Some c"
  by (auto simp: leafNodes_def)

lemma huffmanCodes_keys:
  assumes "freqs \<noteq> []"
  shows "fst ` set (fst (huffmanCodes (leafNodes freqs))) = fst ` set freqs"
proof (cases "length (leafNodes freqs) = 1")
  case True
  then obtain n where n: "leafNodes freqs = [n]"
    by (cases "leafNodes freqs") auto
  then obtain c where c: "char n = Some c"
    using leafNodes_char[of n freqs] by auto
  have "symbolsOf (Some n) = {c}"
    using c by (cases n) simp
  with leafNodes_symbols[of freqs] n have "set (objectKeys freqs) = {c}" by simp
  then have "fst ` set freqs = {c}" by (simp add: set_objectKeys)
  with True n c show ?thesis
    by (simp add: huffmanCodes_def)
next
  case False
  have ne: "leafNodes freqs \<noteq> []"
    using assms leafNodes_length[of freqs] by (metis length_0_conv)
  from huffmanLoop_length[OF ne, of 0] obtain t where t: "huffmanLoop (leafNodes freqs) 0 = [t]"
    by (cases "huffmanLoop (leafNodes freqs) 0") auto
  have "symbolsOf (Some t) = set (objectKeys freqs)"
    using huffmanLoop_symbols[of "leafNodes freqs" 0] t leafNodes_symbols[of freqs] by simp
  with False t show ?thesis
    by (simp add: huffmanCodes_def Let_def generateCodes_keys set_objectKeys)
qed

lemma compressHuffman_dictionary_keys:
  assumes "input \<noteq> []"
  shows "\<exists>codes. dictionary (compressHuffman input) = Some codes \<and>
                 fst ` set codes = (\<lambda>c. [c]) ` set input"
proof -
  have "countFreqs input [] \<noteq> []"
    using assms countFreqs_keys[of input "[]"] by auto
  from huffmanCodes_keys[OF this]
  have k: "fst ` set (fst (huffmanCodes (leafNodes (countFreqs input [])))) = (\<lambda>c. [c]) ` set input"
    by (simp add: countFreqs_keys)
  obtain codes t where h: "huffmanCodes (leafNodes (countFreqs input [])) = (codes, t)"
    by (cases "huffmanCodes (leafNodes (countFreqs input []))")
  with k have "fst ` set codes = (\<lambda>c. [c]) ` set input" by simp
  moreover have "dictionary (compressHuffman input) = Some codes"
    using assms h by (simp add: compressHuffman_def Let_def)
  ultimately show ?thesis by blast
qed

lemma compressHuffman_ABRACADABRA:
  "dictionary (compressHuffman ''ABRACADABRA'') =
     Some [(''A'', ''0''), (''C'', ''100''), (''D'', ''101''), (''B'', ''110''), (''R'', ''111'')]"
  by code_simp

text \<open>
  Claim C3: for every input with at least two distinct symbols, the code table that
  \<^verbatim>\<open>compressHuffman\<close> returns in the \<^verbatim>\<open>dictionary\<close> field is prefix-free: the code of
  a symbol is not a prefix of the code of a different symbol.
\<close>

theorem huffman_prefix_free:
  "2 \<le> card (set input) \<Longrightarrow>
   \<exists>codes. dictionary (compressHuffman input) = Some codes \<and> prefixFree codes"
proof -
  assume "2 \<le> card (set input)"
  then have "input \<noteq> []" by auto
  then show ?thesis
    using huffmanCodes_prefixFree[of "leafNodes (countFreqs input [])"]
    by (auto simp: compressHuffman_def Let_def split: prod.splits)
qed

theorem huffman_prefix_free_witness:
  "\<exists>codes. dictionary (compressHuffman ''ABRACADABRA'') = Some codes \<and>
      codes = [(''A'', ''0''), (''C'', ''100''), (''D'', ''101''), (''B'', ''110''), (''R'', ''111'')] \<and>
      \<not> prefix ''110'' ''111''"
proof -
  have c: "2 \<le> card (set ''ABRACADABRA'')"
    by code_simp
  from huffman_prefix_free[OF c] obtain codes
    where d: "dictionary (compressHuffman ''ABRACADABRA'') = Some codes" and p: "prefixFree codes"
    by (elim exE conjE)
  from d have e: "codes = [(''A'', ''0''), (''C'', ''100''), (''D'', ''101''), (''B'', ''110''), (''R'', ''111'')]"
    by (simp only: compressHuffman_ABRACADABRA option.inject)
  have m1: "(''B'', ''110'') \<in> set codes"
    unfolding e by (simp only: list.set insert_iff simp_thms)
  have m2: "(''R'', ''111'') \<in> set codes"
    unfolding e by (simp only: list.set insert_iff simp_thms)
  have n: "''B'' \<noteq> ''R''"
    by simp
  from p have pf: "\<forall>(k1, c1)\<in>set codes. \<forall>(k2, c2)\<in>set codes. k1 \<noteq> k2 \<longrightarrow> \<not> prefix c1 c2"
    unfolding prefixFree_def .
  from bspec[OF pf m1] have "\<forall>(k2, c2)\<in>set codes. ''B'' \<noteq> k2 \<longrightarrow> \<not> prefix ''110'' c2"
    by (simp only: prod.case)
  from bspec[OF this m2] have "''B'' \<noteq> ''R'' \<longrightarrow> \<not> prefix ''110'' ''111''"
    by (simp only: prod.case)
  with n have q: "\<not> prefix ''110'' ''111''" by (rule mp[rotated])
  show ?thesis
    by (rule exI[of _ codes]) (simp only: d e[symmetric] q simp_thms)
qed

subsection \<open>LZW\<close>

lemma dictSet_keeps: "d k \<noteq> None \<Longrightarrow> dictSet d k' v k \<noteq> None"
  by (simp add: dictSet_def)

lemma lzwLoop_inv:
  "lzwLoop cs st = Inr st' \<Longrightarrow> \<forall>c\<in>set cs. c < 256 \<Longrightarrow> lzwInv st \<Longrightarrow> lzwInv st'"
proof (induction cs arbitrary: st)
  case Nil
  then show ?case by simp
next
  case (Cons c cs)
  let ?d = "s_dictionary st"
  let ?wc = "s_w st @ [c]"
  from Cons.prems(2) have c: "c < 256" and cs: "\<forall>c\<in>set cs. c < 256" by simp_all
  from Cons.prems(3) have bytes: "\<forall>c<256. ?d [c] \<noteq> None"
    and w: "s_w st = [] \<or> ?d (s_w st) \<noteq> None"
    and outs: "\<forall>s\<in>set (s_steps st). l_output s \<noteq> None"
    and res: "s_result st = map l_output (s_steps st)"
    by (simp_all add: lzwInv_def)
  show ?case
  proof (cases "hasOwnProperty ?d ?wc")
    case (Inl e)
    with Cons.prems(1) show ?thesis by (simp add: Let_def)
  next
    case (Inr b)
    then have b: "b = (?d ?wc \<noteq> None)"
      by (auto simp: hasOwnProperty_def split: if_splits)
    show ?thesis
    proof (cases b)
      case True
      with Inr Cons.prems(1) have l: "lzwLoop cs (st\<lparr>s_w := ?wc\<rparr>) = Inr st'"
        by (simp add: Let_def)
      have "lzwInv (st\<lparr>s_w := ?wc\<rparr>)"
        using bytes outs res True b by (simp add: lzwInv_def)
      from Cons.IH[OF l cs this] show ?thesis .
    next
      case False
      let ?st = "\<lparr> s_dictionary = dictSet ?d ?wc (s_dictSize st), s_w = [c],
                 s_result = s_result st @ [?d (s_w st)],
                 s_steps = s_steps st @
                   [\<lparr> l_step = length (s_steps st) + 1, l_w = s_w st, l_k = [c],
                      l_output = ?d (s_w st), l_addedToDict = ?wc,
                      l_newCode = Some (s_dictSize st) \<rparr>],
                 s_dictSize = s_dictSize st + 1 \<rparr>"
      from False Inr Cons.prems(1) have l: "lzwLoop cs ?st = Inr st'"
        by (simp add: Let_def)
      have "s_w st \<noteq> []"
      proof
        assume "s_w st = []"
        with False b have "?d [c] = None" by simp
        with bytes c show False by auto
      qed
      with w have dw: "?d (s_w st) \<noteq> None" by simp
      have "lzwInv ?st"
        using bytes outs res dw c by (simp add: lzwInv_def dictSet_keeps)
      from Cons.IH[OF l cs this] show ?thesis .
    qed
  qed
qed

lemma lzwSeed_inv:
  "lzwInv \<lparr> s_dictionary = lzwSeed, s_w = [], s_result = [], s_steps = [], s_dictSize = 256 \<rparr>"
  by (simp add: lzwInv_def lzwSeed_def)

lemma lzwFlush_inv: "lzwInv st \<Longrightarrow> lzwInv (lzwFlush st)"
  by (auto simp: lzwInv_def lzwFlush_def)

lemma compressLZW_outputs:
  assumes "\<forall>c\<in>set input. c < 256" and "compressLZW input = Inr r"
  shows "\<forall>s\<in>set (steps r). l_output s \<noteq> None"
proof (cases "input = []")
  case True
  with assms(2) show ?thesis by (auto simp: compressLZW_def emptyResult_def)
next
  case False
  with assms(2) obtain st where
    l: "lzwLoop input \<lparr> s_dictionary = lzwSeed, s_w = [], s_result = [], s_steps = [], s_dictSize = 256 \<rparr> = Inr st"
    and r: "steps r = s_steps (lzwFlush st)"
    by (auto simp: compressLZW_def Let_def split: sum.splits)
  from lzwLoop_inv[OF l assms(1) lzwSeed_inv] have "lzwInv (lzwFlush st)"
    by (rule lzwFlush_inv)
  with r show ?thesis by (simp add: lzwInv_def)
qed

lemma lzw_256: "\<exists>r. compressLZW [256] = Inr r \<and> map l_output (steps r) = [None, Some 256]"
  by (simp add: compressLZW_def hasOwnProperty_def dictSet_def lzwSeed_def lzwFlush_def ustr_def Let_def)

lemma lzw_ABABA: "\<exists>r. compressLZW (ustr ''ABABA'') = Inr r \<and> map l_output (steps r) = [Some 65, Some 66, Some 256, Some 65]"
  by (simp add: compressLZW_def hasOwnProperty_def dictSet_def lzwSeed_def lzwFlush_def ustr_def Let_def)

text \<open>
  Claim C10: on an input whose code units are all below 256, every code that
  \<^verbatim>\<open>compressLZW\<close> emits is a defined number, because the prefix that is looked up is
  a seeded single byte or a key inserted before. The guarantee depends on the byte
  range: for the input of the single code unit 256 the first lookup misses and the
  first emitted code is \<^verbatim>\<open>undefined\<close>.
\<close>

theorem lzw_codes_defined:
  "((\<forall>c\<in>set input. c < 256) \<longrightarrow>
      (\<forall>r. compressLZW input = Inr r \<longrightarrow> (\<forall>s\<in>set (steps r). \<exists>n. l_output s = Some n))) \<and>
   (\<exists>r. compressLZW [256] = Inr r \<and> map l_output (steps r) = [None, Some 256])"
  using compressLZW_outputs[of input] lzw_256 by auto

theorem lzw_codes_defined_witness:
  "\<exists>r. compressLZW (ustr ''ABABA'') = Inr r \<and>
       list_all (\<lambda>s. \<exists>n. l_output s = Some n) (steps r) \<and>
       map l_output (steps r) = [Some 65, Some 66, Some 256, Some 65]"
proof -
  have b: "\<forall>c\<in>set (ustr ''ABABA''). c < 256"
    by (simp add: ustr_def)
  from lzw_ABABA obtain r where r: "compressLZW (ustr ''ABABA'') = Inr r"
    and o: "map l_output (steps r) = [Some 65, Some 66, Some 256, Some 65]"
    by (elim exE conjE)
  have "\<forall>s\<in>set (steps r). \<exists>n. l_output s = Some n"
    by (rule lzw_codes_defined[of "ustr ''ABABA''", THEN conjunct1, THEN mp, OF b,
              THEN spec, THEN mp, OF r])
  then have "list_all (\<lambda>s. \<exists>n. l_output s = Some n) (steps r)"
    by (simp only: list_all_iff)
  with r o show ?thesis by (intro conjI exI[of _ r])
qed

subsection \<open>Tunstall coding: the growth loop and the code map\<close>

lemma tunstallGrow_single:
  assumes "tunstallGrow alphabet0 freqs0 tot0 dict0 = Some y0"
  shows "\<not> (length alphabet0 = 1 \<and> length dict0 = 1)"
proof (rule tunstallGrow.raw_induct
    [where P = "\<lambda>alphabet freqs tot dict y. \<not> (length alphabet = 1 \<and> length dict = 1)",
     OF _ assms], goal_cases)
  case (1 grow alphabet freqs tot dict y)
  show ?case
  proof
    assume a: "length alphabet = 1 \<and> length dict = 1"
    then obtain e where e: "dict = [e]"
      by (cases dict) auto
    from a e 1(2)
    have "grow alphabet freqs tot (expandEntry alphabet freqs tot e) = Some y"
      by (simp add: MAX_DICT_SIZE_def BIT_WIDTH_def)
    from 1(1)[OF this] a show False
      by (simp add: expandEntry_def)
  qed
qed

lemma tunstallDictionary_single:
  "card (set input) = 1 \<Longrightarrow> tunstallDictionary input = None"
proof (rule ccontr)
  assume c: "card (set input) = 1" and "tunstallDictionary input \<noteq> None"
  then obtain d where "tunstallDictionary input = Some d" by auto
  from tunstallGrow_single[OF this[unfolded tunstallDictionary_def Let_def]] c
  show False by (simp add: alphabet_length)
qed

lemma compressTunstall_single:
  "card (set input) = 1 \<Longrightarrow> compressTunstall input = None"
proof -
  assume c: "card (set input) = 1"
  then have "input \<noteq> []" by auto
  with tunstallDictionary_single[OF c] show ?thesis
    by (simp add: compressTunstall_def)
qed

text \<open>
  The LZW encoder does not return on every input either: once the key
  \<^verbatim>\<open>hasOwnProperty\<close> has been inserted, the next membership test raises.
\<close>

lemma compressLZW_hasOwnProperty:
  "compressLZW (ustr ''hahashasOhasOwhasOwnhasOwnPhasOwnPrhasOwnProhasOwnProphasOwnPropehasOwnProper1hasOwnProperthasOwnPropertyy'') = Inl TypeError"
  by (simp add: compressLZW_def hasOwnProperty_def dictSet_def lzwSeed_def ustr_def Let_def)

text \<open>
  Claim C1 says that every encoder call on every input runs to completion and returns
  a result, \<^verbatim>\<open>compressTunstall\<close> in particular on inputs with a single distinct
  symbol. On such an input the growth loop removes the only entry and pushes one
  entry, so the dictionary keeps one entry, the loop condition \<open>1 + 1 - 1 \<le> 16\<close>
  stays true, and no result is ever returned.
\<close>

theorem tunstall_single_symbol_never_returns:
  "compressTunstall ''A'' = None \<and> compressTunstall ''AAAA'' = None"
  by (simp add: compressTunstall_single)

lemma prefix_same_length: "prefix x y \<Longrightarrow> length x = length y \<Longrightarrow> x = y"
  by (auto simp: prefix_def)

lemma symbolList_incomparable: "symbolList A \<Longrightarrow> incomparable A"
  unfolding symbolList_def incomparable_def
  by (auto intro: prefix_same_length)

lemma prefix_snoc_symbol:
  "length ch = 1 \<Longrightarrow> prefix x (b @ ch) \<Longrightarrow> prefix x b \<or> x = b @ ch"
  by (cases ch) (auto simp: prefix_snoc)

lemma incomparable_expand:
  assumes inc: "incomparable (b # R)" and sym: "symbolList A"
  shows "incomparable (R @ map (\<lambda>ch. b @ ch) A)"
proof -
  from inc have dR: "distinct R" and bR: "b \<notin> set R"
    and pR: "\<And>x y. x \<in> set (b # R) \<Longrightarrow> y \<in> set (b # R) \<Longrightarrow> prefix x y \<Longrightarrow> x = y"
    by (auto simp: incomparable_def)
  from sym have dA: "distinct A" and lA: "\<And>ch. ch \<in> set A \<Longrightarrow> length ch = 1"
    by (auto simp: symbolList_def)
  have notin: "b @ ch \<notin> set R" for ch
  proof
    assume m: "b @ ch \<in> set R"
    have "prefix b (b @ ch)" by simp
    with m pR[of b "b @ ch"] have "b = b @ ch" by simp
    with m bR show False by simp
  qed
  have d: "distinct (R @ map (\<lambda>ch. b @ ch) A)"
    using dR dA notin by (auto simp: distinct_map inj_on_def)
  have p: "x = y" if x: "x \<in> set (R @ map (\<lambda>ch. b @ ch) A)"
    and y: "y \<in> set (R @ map (\<lambda>ch. b @ ch) A)" and pre: "prefix x y" for x y
  proof (cases "x \<in> set R")
    case xR: True
    show ?thesis
    proof (cases "y \<in> set R")
      case True
      with xR pre pR show ?thesis by simp
    next
      case False
      with y obtain ch where ch: "ch \<in> set A" and yb: "y = b @ ch" by auto
      from prefix_snoc_symbol[OF lA[OF ch] pre[unfolded yb]]
      show ?thesis
      proof
        assume "prefix x b"
        with xR pR[of x b] have "x = b" by simp
        with xR bR show ?thesis by simp
      next
        assume "x = b @ ch"
        with yb show ?thesis by simp
      qed
    qed
  next
    case xR: False
    with x obtain ch where ch: "ch \<in> set A" and xb: "x = b @ ch" by auto
    show ?thesis
    proof (cases "y \<in> set R")
      case True
      have "prefix b x" using xb by simp
      then have "prefix b y" using pre by (rule prefix_order.trans)
      with True pR[of b y] have "b = y" by simp
      with True bR show ?thesis by simp
    next
      case False
      with y obtain ch' where ch': "ch' \<in> set A" and yb: "y = b @ ch'" by auto
      from pre xb yb have "prefix ch ch'" by simp
      with lA[OF ch] lA[OF ch'] have "ch = ch'" by (simp add: prefix_same_length)
      with xb yb show ?thesis by simp
    qed
  qed
  from d p show ?thesis unfolding incomparable_def by blast
qed

lemma incomparable_sorted:
  assumes "incomparable (map t_seq dict)" and "sort_key g dict = best # rest"
  shows "incomparable (t_seq best # map t_seq rest)"
proof -
  have s: "set (best # rest) = set dict"
    using assms(2) by (metis set_sort)
  have "distinct (map t_seq (sort_key g dict))"
    using assms(1) by (simp add: incomparable_def distinct_map)
  with assms(2) have d: "distinct (map t_seq (best # rest))" by simp
  have "set (map t_seq (best # rest)) = set (map t_seq dict)"
    using s by (metis set_map)
  with assms(1) d show ?thesis
    unfolding incomparable_def by simp
qed

lemma tunstallGrow_terminates:
  assumes k: "2 \<le> length alphabet" and sym: "symbolList alphabet"
  shows "growInv dict \<Longrightarrow>
         \<exists>d. tunstallGrow alphabet freqs tot dict = Some d \<and> growInv d"
proof (induction "17 - length dict" arbitrary: dict rule: less_induct)
  case less
  note inv = less.prems
  show ?case
  proof (cases "int (length dict) + int (length alphabet) - 1 \<le> MAX_DICT_SIZE")
    case False
    then have "tunstallGrow alphabet freqs tot dict = Some dict"
      by (subst tunstallGrow.simps) simp
    with inv show ?thesis by simp
  next
    case True
    from inv have ne: "dict \<noteq> []" by (simp add: growInv_def)
    then have "sort_key (\<lambda>e. - t_prob e) dict \<noteq> []"
      by (metis length_sort length_0_conv)
    then obtain best rest where srt: "sort_key (\<lambda>e. - t_prob e) dict = best # rest"
      by (cases "sort_key (\<lambda>e. - t_prob e) dict") auto
    let ?new = "rest @ expandEntry alphabet freqs tot best"
    have len: "length dict = Suc (length rest)"
      using srt by (metis length_sort length_Cons)
    have lnew: "length ?new = length rest + length alphabet"
      by (simp add: expandEntry_def)
    have step: "tunstallGrow alphabet freqs tot dict = tunstallGrow alphabet freqs tot ?new"
      using True srt by (subst tunstallGrow.simps) simp
    have sset: "set (best # rest) = set dict"
      using srt by (metis set_sort)
    have seqs: "map t_seq ?new = map t_seq rest @ map (\<lambda>ch. t_seq best @ ch) alphabet"
      by (simp add: expandEntry_def comp_def)
    from inv have "incomparable (map t_seq dict)" by (simp add: growInv_def)
    from incomparable_expand[OF incomparable_sorted[OF this srt] sym]
    have inc: "incomparable (map t_seq ?new)" by (simp only: seqs)
    have nonempty: "\<forall>e\<in>set ?new. t_seq e \<noteq> []"
    proof
      fix e assume "e \<in> set ?new"
      then consider "e \<in> set rest" | "e \<in> set (expandEntry alphabet freqs tot best)" by auto
      then show "t_seq e \<noteq> []"
      proof cases
        case 1
        with sset inv show ?thesis by (auto simp: growInv_def)
      next
        case 2
        have "t_seq best \<noteq> []" using sset inv by (auto simp: growInv_def)
        with 2 show ?thesis by (auto simp: expandEntry_def)
      qed
    qed
    have "?new \<noteq> []"
      using k lnew by (metis length_0_conv add_is_0 not_numeral_le_zero)
    then have "growInv ?new"
      using True k inc nonempty len lnew by (simp add: growInv_def)
    moreover have "17 - length ?new < 17 - length dict"
      using True k len lnew by (simp add: MAX_DICT_SIZE_def BIT_WIDTH_def)
    ultimately obtain d where "tunstallGrow alphabet freqs tot ?new = Some d" and "growInv d"
      using less.hyps[of ?new] by blast
    with step show ?thesis by simp
  qed
qed


lemma buildCodeMap_other:
  "k \<notin> set (map t_seq d) \<Longrightarrow> map_of (buildCodeMap d i cm) k = map_of cm k"
  by (induction d i cm rule: buildCodeMap.induct) (auto simp: update_conv')

lemma buildCodeMap_index:
  "distinct (map t_seq d) \<Longrightarrow> j < length d \<Longrightarrow>
   map_of (buildCodeMap d i cm) (t_seq (d ! j)) = Some (tunstallCode (i + j))"
proof (induction d i cm arbitrary: j rule: buildCodeMap.induct)
  case (1 index codeMap)
  then show ?case by simp
next
  case (2 item items index codeMap)
  show ?case
  proof (cases j)
    case 0
    with 2(2) show ?thesis
      by (simp add: buildCodeMap_other update_conv')
  next
    case (Suc j')
    with 2 show ?thesis by simp
  qed
qed

lemma buildCodeMap_keys:
  "fst ` set (buildCodeMap d i cm) = fst ` set cm \<union> set (map t_seq d)"
  by (induction d i cm rule: buildCodeMap.induct) (auto simp: dom_update)

lemma length_toStringRadix2:
  "0 < k \<Longrightarrow> n < 2 ^ k \<Longrightarrow> length (toStringRadix 2 n) \<le> k"
proof (induction k arbitrary: n)
  case 0
  then show ?case by simp
next
  case (Suc k)
  show ?case
  proof (cases "n < 2")
    case True
    then show ?thesis by (subst toStringRadix.simps) simp
  next
    case False
    with Suc.prems have k: "0 < k"
      by (cases k) auto
    from Suc.prems have "n div 2 < 2 ^ k" by auto
    from Suc.IH[OF k this] False show ?thesis
      by (subst toStringRadix.simps) simp
  qed
qed

lemma length_tunstallCode: "i < 16 \<Longrightarrow> length (tunstallCode i) = 4"
  using length_toStringRadix2[of 4 i]
  by (simp add: tunstallCode_def padStart_def BIT_WIDTH_def)

lemma tunstallTokens_terminates:
  assumes "\<forall>k\<in>set keys. k \<noteq> []"
  shows "\<exists>r. tunstallTokens keys codeMap rest enc sts = Some r"
proof (induction "length rest" arbitrary: rest enc sts rule: less_induct)
  case less
  show ?case
  proof (cases "rest = []")
    case True
    then show ?thesis by (subst tunstallTokens.simps) simp
  next
    case False
    show ?thesis
    proof (cases "find (\<lambda>seq. prefix seq rest) keys")
      case None
      have "length (tl rest) < length rest" using False by simp
      from less[OF this] None False show ?thesis
        by (subst tunstallTokens.simps) simp
    next
      case (Some seq)
      then have "seq \<in> set keys"
        by (auto simp: find_Some_iff)
      with assms have "seq \<noteq> []" by simp
      with False have "length (drop (length seq) rest) < length rest" by simp
      from less[OF this] Some False show ?thesis
        by (subst tunstallTokens.simps) simp
    qed
  qed
qed

lemma sortedKeys_set: "set (sortedKeys codeMap) = fst ` set codeMap"
  by (simp add: sortedKeys_def set_objectKeys)

lemma alphabet_symbolList: "symbolList (objectKeys (countFreqs input []))"
  using alphabet_set[of input] alphabet_distinct[of input]
  by (auto simp: symbolList_def)

lemma initial_growInv:
  assumes "symbolList alphabet" and "alphabet \<noteq> []" and "length alphabet \<le> 16"
  shows "growInv (map (\<lambda>ch. \<lparr> t_seq = ch, t_prob = charProb freqs tot ch \<rparr>) alphabet)"
proof -
  have "map t_seq (map (\<lambda>ch. \<lparr> t_seq = ch, t_prob = charProb freqs tot ch \<rparr>) alphabet) = alphabet"
    by (simp add: comp_def)
  moreover have "\<forall>ch\<in>set alphabet. ch \<noteq> []"
    using assms(1) by (auto simp: symbolList_def)
  ultimately show ?thesis
    using assms symbolList_incomparable[OF assms(1)]
    by (auto simp: growInv_def MAX_DICT_SIZE_def BIT_WIDTH_def)
qed

lemma update_fresh: "k \<notin> fst ` set al \<Longrightarrow> AList.update k v al = al @ [(k, v)]"
  by (induction al) auto

lemma buildCodeMap_eq:
  "distinct (map fst cm @ map t_seq d) \<Longrightarrow>
   buildCodeMap d i cm = cm @ zip (map t_seq d) (map tunstallCode [i ..< i + length d])"
proof (induction d i cm rule: buildCodeMap.induct)
  case (1 index codeMap)
  then show ?case by simp
next
  case (2 item items index codeMap)
  from 2(2) have fresh: "t_seq item \<notin> fst ` set codeMap" by auto
  let ?cm = "codeMap @ [(t_seq item, tunstallCode index)]"
  from 2(2) have "distinct (map fst ?cm @ map t_seq items)" by auto
  from 2(1)[OF this[unfolded update_fresh[OF fresh, symmetric]]]
  have ih: "buildCodeMap items (index + 1) ?cm =
             ?cm @ zip (map t_seq items) (map tunstallCode [index + 1 ..< index + 1 + length items])"
    by (simp only: update_fresh[OF fresh])
  have u: "[index ..< index + length (item # items)] =
           index # [index + 1 ..< index + 1 + length items]"
    by (subst upt_rec) simp
  have "buildCodeMap (item # items) index codeMap = buildCodeMap items (index + 1) ?cm"
    by (simp only: buildCodeMap.simps update_fresh[OF fresh])
  also note ih
  finally show ?case
    by (simp only: u list.map zip_Cons_Cons append_Cons append_Nil append_assoc)
qed

text \<open>
  The encoder returns on every input that does not have exactly one distinct symbol.
\<close>

lemma tunstallDictionary_wide:
  assumes "16 < card (set input)"
  shows "tunstallDictionary input =
           Some (map (\<lambda>ch. \<lparr> t_seq = ch, t_prob = charProb (countFreqs input []) (length input) ch \<rparr>)
                   (objectKeys (countFreqs input [])))"
proof -
  have "16 < length (objectKeys (countFreqs input []))"
    using assms by (simp add: alphabet_length)
  then show ?thesis
    unfolding tunstallDictionary_def Let_def
    by (subst tunstallGrow.simps) (simp add: MAX_DICT_SIZE_def BIT_WIDTH_def)
qed

lemma tunstallDictionary_nonempty_seqs:
  assumes "card (set input) \<noteq> 1" and "input \<noteq> []"
  shows "\<exists>d. tunstallDictionary input = Some d \<and> (\<forall>e\<in>set d. t_seq e \<noteq> [])"
proof (cases "16 < card (set input)")
  case True
  have "\<forall>ch\<in>set (objectKeys (countFreqs input [])). ch \<noteq> []"
    using alphabet_symbolList[of input] by (auto simp: symbolList_def)
  then show ?thesis
    by (auto simp: tunstallDictionary_wide[OF True])
next
  case False
  from assms(2) have "0 < card (set input)" by (simp add: card_gt_0_iff)
  with assms(1) False have k: "2 \<le> length (objectKeys (countFreqs input []))"
    "length (objectKeys (countFreqs input [])) \<le> 16"
    by (simp_all add: alphabet_length)
  then have ane: "objectKeys (countFreqs input []) \<noteq> []" by auto
  from tunstallGrow_terminates[OF k(1) alphabet_symbolList
         initial_growInv[OF alphabet_symbolList ane k(2)]]
  show ?thesis
    unfolding tunstallDictionary_def Let_def growInv_def by blast
qed

lemma compressTunstall_returns:
  assumes "card (set input) \<noteq> 1"
  shows "\<exists>r. compressTunstall input = Some r"
proof (cases "input = []")
  case True
  then show ?thesis by (simp add: compressTunstall_def)
next
  case False
  from tunstallDictionary_nonempty_seqs[OF assms False]
  obtain d where d: "tunstallDictionary input = Some d" and ne: "\<forall>e\<in>set d. t_seq e \<noteq> []"
    by blast
  let ?cm = "buildCodeMap d 0 []"
  have "\<forall>k\<in>set (sortedKeys ?cm). k \<noteq> []"
    using ne by (auto simp: sortedKeys_set buildCodeMap_keys)
  from tunstallTokens_terminates[OF this, of ?cm input "[]" "[]"]
  obtain res where "tunstallTokens (sortedKeys ?cm) ?cm input [] [] = Some res"
    by blast
  with False d show ?thesis
    by (cases res) (simp add: compressTunstall_def)
qed

text \<open>
  Claim C5 says that for every non-empty input the final dictionary has at most 16
  entries and every code of the code map is the index of its entry in 4 binary
  digits, alphabets of more than 16 symbols included. The code does not do this for
  an alphabet of 17 symbols: the growth loop is not entered, the seed dictionary is
  the whole alphabet, 17 entries against \<open>MAX_DICT_SIZE = 16\<close>, and the entry of index
  16 receives the five-digit code \<^verbatim>\<open>10000\<close> against \<open>BIT_WIDTH = 4\<close>.
\<close>

theorem tunstall_seventeen_symbols:
  "map_option length (tunstallDictionary ''abcdefghijklmnopq'') = Some 17 \<and>
   map_option dictionary (compressTunstall ''abcdefghijklmnopq'') =
     Some (Some [(''a'', ''0000''), (''b'', ''0001''), (''c'', ''0010''), (''d'', ''0011''),
                 (''e'', ''0100''), (''f'', ''0101''), (''g'', ''0110''), (''h'', ''0111''),
                 (''i'', ''1000''), (''j'', ''1001''), (''k'', ''1010''), (''l'', ''1011''),
                 (''m'', ''1100''), (''n'', ''1101''), (''o'', ''1110''), (''p'', ''1111''),
                 (''q'', ''10000'')])"
  by code_simp

text \<open>
  With codes of two widths the encoded text no longer determines the input: after
  the same 17 symbols, \<^verbatim>\<open>qqqq\<close> and \<^verbatim>\<open>iecba\<close> give the same 20 digits.
\<close>

lemma tunstall_wide_alphabet_ambiguous:
  "map_option encoded (compressTunstall ''abcdefghijklmnopqqqqq'') =
     Some (''0000000100100011010001010110011110001001101010111100110111101111'' @
           ''10000'' @ ''10000100001000010000'') \<and>
   map_option encoded (compressTunstall ''abcdefghijklmnopqiecba'') =
     Some (''0000000100100011010001010110011110001001101010111100110111101111'' @
           ''10000'' @ ''10000100001000010000'')"
  by code_simp

text \<open>
  Within the capacity the constants are respected: for every input with at least 2
  and at most 16 distinct symbols, \<^verbatim>\<open>compressTunstall\<close> returns, the final dictionary
  has at most 16 entries with distinct sequences, the code map pairs the sequences, in
  insertion order, with their indices written in binary and padded to 4 digits, and
  every code of the map is exactly 4 characters long.
\<close>

lemma tunstall_codes_four_bits:
  assumes "2 \<le> card (set input)" and "card (set input) \<le> 16"
  shows "\<exists>d r codeMap.
           tunstallDictionary input = Some d \<and> length d \<le> 16 \<and>
           compressTunstall input = Some r \<and> dictionary r = Some codeMap \<and>
           distinct (map t_seq d) \<and>
           codeMap = zip (map t_seq d)
                       (map (\<lambda>index. padStart 4 (toStringRadix 2 index)) [0 ..< length d]) \<and>
           list_all (\<lambda>code. length code = 4) (map snd codeMap)"
proof -
  let ?freqs = "countFreqs input []"
  let ?alphabet = "objectKeys ?freqs"
  from assms have ne: "input \<noteq> []" by auto
  have k: "2 \<le> length ?alphabet" "length ?alphabet \<le> 16"
    using assms by (simp_all add: alphabet_length)
  then have ane: "?alphabet \<noteq> []" by auto
  from tunstallGrow_terminates[OF k(1) alphabet_symbolList
         initial_growInv[OF alphabet_symbolList ane k(2)]]
  obtain d where d: "tunstallDictionary input = Some d" and inv: "growInv d"
    unfolding tunstallDictionary_def Let_def by blast
  let ?cm = "buildCodeMap d 0 []"
  from inv have len: "length d \<le> 16" and dist: "distinct (map t_seq d)"
    and nonempty: "\<forall>e\<in>set d. t_seq e \<noteq> []"
    by (simp_all add: growInv_def incomparable_def MAX_DICT_SIZE_def BIT_WIDTH_def)
  have "\<forall>k\<in>set (sortedKeys ?cm). k \<noteq> []"
    using nonempty by (auto simp: sortedKeys_set buildCodeMap_keys)
  from tunstallTokens_terminates[OF this, of ?cm input "[]" "[]"]
  obtain enc sts where t: "tunstallTokens (sortedKeys ?cm) ?cm input [] [] = Some (enc, sts)"
    by auto
  define r where "r = \<lparr> encoded = enc, originalSize = int (length input) * 8,
       compressedSize = int (length enc),
       ratio = ratioOf (int (length enc)) (int (length input) * 8),
       steps = sts, dictionary = Some ?cm, tree = (None :: unit option) \<rparr>"
  have c: "compressTunstall input = Some r"
    using ne d t by (simp add: compressTunstall_def r_def)
  have cm: "?cm = zip (map t_seq d)
                    (map (\<lambda>index. padStart 4 (toStringRadix 2 index)) [0 ..< length d])"
  proof -
    have "tunstallCode = (\<lambda>index. padStart 4 (toStringRadix 2 index))"
      by (rule ext) (simp add: tunstallCode_def BIT_WIDTH_def)
    with dist show ?thesis by (simp add: buildCodeMap_eq)
  qed
  have "map snd ?cm = map tunstallCode [0 ..< length d]"
    using dist by (simp add: buildCodeMap_eq)
  moreover have "list_all (\<lambda>code. length code = 4) (map tunstallCode [0 ..< length d])"
    using len by (simp add: list_all_iff length_tunstallCode)
  ultimately have four: "list_all (\<lambda>code. length code = 4) (map snd ?cm)"
    by simp
  have "dictionary r = Some ?cm" by (simp add: r_def)
  with d len c dist cm four show ?thesis by blast
qed

lemma tunstall_codes_four_bits_example:
  "\<exists>d r codeMap.
      tunstallDictionary ''ABAC'' = Some d \<and> length d \<le> 16 \<and>
      compressTunstall ''ABAC'' = Some r \<and> dictionary r = Some codeMap \<and>
      distinct (map t_seq d) \<and>
      codeMap = zip (map t_seq d)
                  (map (\<lambda>index. padStart 4 (toStringRadix 2 index)) [0 ..< length d]) \<and>
      list_all (\<lambda>code. length code = 4) (map snd codeMap)"
proof -
  have a: "2 \<le> card (set ''ABAC'')"
    by code_simp
  have b: "card (set ''ABAC'') \<le> 16"
    by code_simp
  show ?thesis
    by (rule tunstall_codes_four_bits[OF a b])
qed

subsection \<open>Properties of all encoders\<close>

text \<open>
  Claim C4: for every input, the \<^verbatim>\<open>code\<close> fields of the trace steps, concatenated in
  order, are the \<^verbatim>\<open>encoded\<close> text, for \<^verbatim>\<open>compressRLE\<close>, \<^verbatim>\<open>compressGolomb\<close> and
  \<^verbatim>\<open>compressTunstall\<close>. The last one returns a result on every input that does not
  have exactly one distinct symbol, and the equation holds for every result it returns.
\<close>

theorem steps_reproduce_encoded:
  "concat (map rle_code (steps (compressRLE input))) = encoded (compressRLE input) \<and>
   concat (map g_code (steps (compressGolomb inputStr mParam))) =
     encoded (compressGolomb inputStr mParam) \<and>
   (\<forall>r. compressTunstall input = Some r \<longrightarrow> concat (map ts_code (steps r)) = encoded r) \<and>
   (card (set input) \<noteq> 1 \<longrightarrow> (\<exists>r. compressTunstall input = Some r))"
proof (intro conjI allI impI)
  show "concat (map rle_code (steps (compressRLE input))) = encoded (compressRLE input)"
  proof (cases "input = []")
    case True
    then show ?thesis by (simp add: compressRLE_def emptyResult_def)
  next
    case False
    obtain enc sts where l: "rleLoop input 1 [] [] = (enc, sts)"
      by (cases "rleLoop input 1 [] []")
    from rleLoop_concat[OF l] have "enc = concat (map rle_code sts)" by simp
    with False l show ?thesis by (simp add: compressRLE_def Let_def)
  qed
next
  show "concat (map g_code (steps (compressGolomb inputStr mParam))) =
     encoded (compressGolomb inputStr mParam)"
    by (simp add: compressGolomb_steps compressGolomb_encoded comp_def)
next
  fix r assume "compressTunstall input = Some r"
  then show "concat (map ts_code (steps r)) = encoded r"
    by (rule compressTunstall_concat)
next
  assume "card (set input) \<noteq> 1"
  then show "\<exists>r. compressTunstall input = Some r"
    by (rule compressTunstall_returns)
qed

theorem steps_reproduce_encoded_witness:
  "\<exists>r. compressTunstall ''ABAC'' = Some r \<and> concat (map ts_code (steps r)) = encoded r \<and>
       encoded r = ''1001ERR'' \<and> map ts_code (steps r) = [''1001'', ''ERR'']"
proof -
  have "\<exists>z. compressTunstall ''ABAC'' = Some z \<and>
          (encoded z, map ts_code (steps z)) = (''1001ERR'', [''1001'', ''ERR''])"
    using compressTunstall_ABAC by (simp only: map_option_eq_Some)
  then obtain r where r: "compressTunstall ''ABAC'' = Some r"
    and p: "(encoded r, map ts_code (steps r)) = (''1001ERR'', [''1001'', ''ERR''])"
    by (elim exE conjE)
  from p have e: "encoded r = ''1001ERR''" "map ts_code (steps r) = [''1001'', ''ERR'']"
    by (simp_all only: prod.inject)
  have c: "concat (map ts_code (steps r)) = encoded r"
    by (rule steps_reproduce_encoded[of "''ABAC''", THEN conjunct2, THEN conjunct2,
              THEN conjunct1, THEN spec, THEN mp, OF r])
  show ?thesis
    by (rule exI[of _ r]) (use r c e in simp)
qed

text \<open>
  Claim C6: for the empty input each of the six encoders returns the zero-valued
  result (empty \<^verbatim>\<open>encoded\<close>, both sizes 0, ratio 0, no steps) instead of failing or
  dividing by zero, and so does \<^verbatim>\<open>compressGolomb\<close> whenever parsing leaves no valid
  number.
\<close>

theorem empty_input_zero_result:
  "zeroValued (compressRLE []) \<and>
   zeroValued (compressHuffman []) \<and>
   (\<exists>r. compressLZW [] = Inr r \<and> zeroValued r) \<and>
   zeroValued (compressGolomb [] mParam) \<and>
   (golombNumbers inputStr = [] \<longrightarrow> zeroValued (compressGolomb inputStr mParam)) \<and>
   (\<exists>r. compressArithmetic [] = Inr r \<and> zeroValued r) \<and>
   (\<exists>r. compressTunstall [] = Some r \<and> zeroValued r)"
proof -
  have n: "golombNumbers [] = []"
    by (simp add: golombNumbers_def parseInt_def keepNumber_def)
  show ?thesis
    by (simp add: n zeroValued_def emptyResult_def compressRLE_def compressHuffman_def
          compressLZW_def compressGolomb_def compressArithmetic_def compressTunstall_def)
qed

theorem empty_input_zero_result_witness:
  "golombNumbers ''abc, -3'' = [] \<and> zeroValued (compressGolomb ''abc, -3'' 4)"
proof -
  have n: "golombNumbers ''abc, -3'' = []"
    by code_simp
  with empty_input_zero_result[of 4 "''abc, -3''"] show ?thesis by blast
qed

end
